theory Spec2Isabelle
  imports Complex_Main
begin

section \<open>Values of the oracle's JSON payload\<close>

text \<open>
  The parser of \<^verbatim>\<open>src/processors/parser.ts\<close> works on what \<^verbatim>\<open>JSON.parse\<close> returns, a
  dynamically typed value. Numbers are modelled as exact rationals (every JSON numeric
  literal denotes one); the rounding of IEEE doubles and the infinities are not modelled.
  An object is the list of its keys and values, read as a finite map (\<open>map_of\<close>).
  A property that is absent reads as \<^verbatim>\<open>undefined\<close>, which is \<open>None\<close> here.
\<close>

datatype json =
    JNull
  | JBool bool
  | JNum rat
  | JStr string
  | JArr "json list"
  | JObj "(string \<times> json) list"

text \<open>Property access \<^verbatim>\<open>raw.key\<close> on a value that is not \<^verbatim>\<open>null\<close>.\<close>

fun getProp :: "json \<Rightarrow> string \<Rightarrow> json option" where
  "getProp (JObj kvs) k = map_of kvs k"
| "getProp _ k = None"

text \<open>The operator \<^verbatim>\<open>typeof\<close>.\<close>

fun typeof :: "json option \<Rightarrow> string" where
  "typeof None = ''undefined''"
| "typeof (Some JNull) = ''object''"
| "typeof (Some (JBool b)) = ''boolean''"
| "typeof (Some (JNum n)) = ''number''"
| "typeof (Some (JStr s)) = ''string''"
| "typeof (Some (JArr xs)) = ''object''"
| "typeof (Some (JObj kvs)) = ''object''"

text \<open>Truthiness, as \<^verbatim>\<open>Boolean(v)\<close>, \<^verbatim>\<open>!v\<close> and \<^verbatim>\<open>if (v)\<close> decide it.\<close>

fun truthy :: "json option \<Rightarrow> bool" where
  "truthy None = False"
| "truthy (Some JNull) = False"
| "truthy (Some (JBool b)) = b"
| "truthy (Some (JNum n)) = (n \<noteq> 0)"
| "truthy (Some (JStr s)) = (s \<noteq> [])"
| "truthy (Some (JArr xs)) = True"
| "truthy (Some (JObj kvs)) = True"

section \<open>Data model (types.ts and the parser's RawReceiptItem)\<close>

text \<open>
  \<^verbatim>\<open>InternalReceiptItem extends ReceiptItem\<close> with \<^verbatim>\<open>needsVerification\<close>; the parser's
  \<^verbatim>\<open>RawReceiptItem\<close> has the same fields and three more, the attachment marks. An optional
  field that is absent or \<^verbatim>\<open>undefined\<close> is \<open>None\<close>.
\<close>

record ReceiptItem =
  name :: string
  price :: rat
  quantity :: rat
  hasTax :: bool
  taxAmount :: "rat option"
  deposit :: "rat option"
  discount :: "rat option"

record InternalReceiptItem = ReceiptItem +
  needsVerification :: bool

record RawReceiptItem = InternalReceiptItem +
  isAttachment :: "bool option"
  attachmentType :: "json option"
  attachedTo :: "rat option"

text \<open>
  What parseResponse returns; extract.ts reads it as
  \<^verbatim>\<open>const { items: parsedItems, total } = parseResponse(responseText)\<close>.
\<close>

record ParsedReceiptData =
  parsedItems :: "InternalReceiptItem list"
  parsedTotal :: rat

record ReceiptData =
  items :: "ReceiptItem list"
  total_amt :: rat

record VerificationContext =
  rawText :: string
  allItems :: "ReceiptItem list"

record VerificationResult =
  verifiedName :: string

section \<open>parser.ts\<close>

subsection \<open>normalizeRawItem\<close>

text \<open>\<^verbatim>\<open>typeof v === 'number' ? v : undefined\<close>\<close>

fun numberOrUndefined :: "json option \<Rightarrow> rat option" where
  "numberOrUndefined (Some (JNum n)) = Some n"
| "numberOrUndefined _ = None"

definition normalizeRawItem :: "json \<Rightarrow> string + RawReceiptItem" where
  "normalizeRawItem raw =
     (if \<not> truthy (Some raw) \<or> typeof (Some raw) \<noteq> ''object''
      then Inl ''Invalid item: not an object''
      else (case getProp raw ''name'' of
        Some (JStr n) \<Rightarrow>
          (if n = [] then Inl ''Invalid item: missing or invalid name field''
           else (case getProp raw ''price'' of
             Some (JNum p) \<Rightarrow>
               (if p < 0 then Inl ''Invalid item: missing or invalid price field''
                else Inr \<lparr> name = n,
                  price = p,
                  quantity = (case getProp raw ''quantity'' of Some (JNum q) \<Rightarrow> q | _ \<Rightarrow> 1),
                  hasTax = truthy (getProp raw ''hasTax''),
                  taxAmount = numberOrUndefined (getProp raw ''taxAmount''),
                  deposit = numberOrUndefined (getProp raw ''deposit''),
                  discount = numberOrUndefined (getProp raw ''discount''),
                  needsVerification = truthy (getProp raw ''needsVerification''),
                  isAttachment =
                    (if getProp raw ''isAttachment'' = Some (JBool True) then Some True else None),
                  attachmentType = getProp raw ''attachmentType'',
                  attachedTo = numberOrUndefined (getProp raw ''attachedTo'') \<rparr>)
           | _ \<Rightarrow> Inl ''Invalid item: missing or invalid price field''))
      | _ \<Rightarrow> Inl ''Invalid item: missing or invalid name field''))"

subsection \<open>mergeAttachments\<close>

text \<open>\<^verbatim>\<open>!item.isAttachment\<close> is false only for the value \<^verbatim>\<open>true\<close>.\<close>

definition isAttachmentRecord :: "RawReceiptItem \<Rightarrow> bool" where
  "isAttachmentRecord item = (isAttachment item = Some True)"

text \<open>\<^verbatim>\<open>(x || 0)\<close> on an optional number.\<close>

fun orZero :: "rat option \<Rightarrow> rat" where
  "orZero None = 0"
| "orZero (Some v) = (if v = 0 then 0 else v)"

text \<open>\<^verbatim>\<open>if (currentItem) result.push(currentItem)\<close>\<close>

fun pushCurrent :: "RawReceiptItem list \<Rightarrow> RawReceiptItem option \<Rightarrow> RawReceiptItem list" where
  "pushCurrent result None = result"
| "pushCurrent result (Some c) = result @ [c]"

text \<open>
  The \<^verbatim>\<open>for\<close> loop of mergeAttachments over the remaining input, with the loop's two
  variables \<^verbatim>\<open>result\<close> and \<^verbatim>\<open>currentItem\<close> as state.
\<close>

fun mergeLoop ::
  "RawReceiptItem list \<Rightarrow> RawReceiptItem list \<Rightarrow> RawReceiptItem option
   \<Rightarrow> RawReceiptItem list \<times> RawReceiptItem option" where
  "mergeLoop [] result currentItem = (result, currentItem)"
| "mergeLoop (item # rest) result currentItem =
     (if \<not> isAttachmentRecord item
      then mergeLoop rest (pushCurrent result currentItem) (Some item)
      else (case currentItem of
        Some c \<Rightarrow>
          (if attachmentType item = Some (JStr ''deposit'')
           then mergeLoop rest result
                  (Some (c\<lparr>deposit := Some (orZero (deposit c) + price item * quantity item)\<rparr>))
           else if attachmentType item = Some (JStr ''discount'')
           then mergeLoop rest result
                  (Some (c\<lparr>discount := Some (orZero (discount c) - price item)\<rparr>))
           else mergeLoop rest result (Some c))
      | None \<Rightarrow> mergeLoop rest result None))"

text \<open>The final \<^verbatim>\<open>map\<close>: the three attachment keys are removed from every item.\<close>

definition cleanItem :: "RawReceiptItem \<Rightarrow> RawReceiptItem" where
  "cleanItem item = item\<lparr>isAttachment := None, attachmentType := None, attachedTo := None\<rparr>"

definition mergeAttachments :: "RawReceiptItem list \<Rightarrow> RawReceiptItem list" where
  "mergeAttachments its =
     (case mergeLoop its [] None of
        (result, currentItem) \<Rightarrow> map cleanItem (pushCurrent result currentItem))"


subsection \<open>extractJson\<close>

text \<open>
  Strings are lists of bytes; \<^verbatim>\<open>trim\<close> and the class \<^verbatim>\<open>\s\<close> are modelled on the ASCII
  white space (tab, line feed, vertical tab, form feed, carriage return, space).
\<close>

definition isSpace :: "char \<Rightarrow> bool" where
  "isSpace c = (c \<in> set [CHR 0x09, CHR 0x0A, CHR 0x0B, CHR 0x0C, CHR 0x0D, CHR 0x20])"

definition trim :: "string \<Rightarrow> string" where
  "trim s = rev (dropWhile isSpace (rev (dropWhile isSpace s)))"

definition fence :: string where
  "fence = [CHR 0x60, CHR 0x60, CHR 0x60]"

text \<open>The text after the first fence, and the text before the first fence.\<close>

fun afterFence :: "string \<Rightarrow> string option" where
  "afterFence [] = None"
| "afterFence (c # cs) =
     (if take 3 (c # cs) = fence then Some (drop 3 (c # cs)) else afterFence cs)"

fun beforeFence :: "string \<Rightarrow> string option" where
  "beforeFence [] = None"
| "beforeFence (c # cs) =
     (if take 3 (c # cs) = fence then Some []
      else (case beforeFence cs of None \<Rightarrow> None | Some b \<Rightarrow> Some (c # b)))"

text \<open>
  The first capture group of the regular expression
  \<^verbatim>\<open>/```(?:json)?\s*([\s\S]*?)```/\<close>: after the leftmost fence an optional \<^verbatim>\<open>json\<close> and
  all white space are skipped (neither can hold a backquote, so backtracking into them
  never finds another match), and the lazy group ends at the next fence.
\<close>

definition codeBlockMatch :: "string \<Rightarrow> string option" where
  "codeBlockMatch cleaned =
     (case afterFence cleaned of
        None \<Rightarrow> None
      | Some r \<Rightarrow>
          beforeFence (dropWhile isSpace (if take 4 r = ''json'' then drop 4 r else r)))"

definition extractJson :: "string \<Rightarrow> string" where
  "extractJson text =
     (let cleaned = trim text in
      case codeBlockMatch cleaned of
        Some g \<Rightarrow> trim g
      | None \<Rightarrow> cleaned)"

subsection \<open>parseResponse\<close>

text \<open>The decimal digits of an array index, as the template literal prints it.\<close>

fun natToString :: "nat \<Rightarrow> string" where
  "natToString n =
     (if n < 10 then [''0123456789'' ! n]
      else natToString (n div 10) @ [''0123456789'' ! (n mod 10)])"

text \<open>
  \<^verbatim>\<open>parsed.items.map((raw, index) => ...)\<close>: the first item that normalizeRawItem
  rejects ends the map with an error that names its index.
\<close>

fun normalizeItems :: "json list \<Rightarrow> nat \<Rightarrow> string + RawReceiptItem list" where
  "normalizeItems [] index = Inr []"
| "normalizeItems (raw # raws) index =
     (case normalizeRawItem raw of
        Inl message \<Rightarrow> Inl (''Invalid item at index '' @ natToString index @ '': '' @ message)
      | Inr item \<Rightarrow>
          (case normalizeItems raws (Suc index) of
             Inl e \<Rightarrow> Inl e
           | Inr its \<Rightarrow> Inr (item # its)))"

text \<open>
  The merged objects are returned under the type \<^verbatim>\<open>InternalReceiptItem[]\<close> as they are;
  the record view keeps the fields of that type.
\<close>

definition asInternal :: "RawReceiptItem \<Rightarrow> InternalReceiptItem" where
  "asInternal r =
     \<lparr> name = name r, price = price r, quantity = quantity r, hasTax = hasTax r,
       taxAmount = taxAmount r, deposit = deposit r, discount = discount r,
       needsVerification = needsVerification r \<rparr>"

text \<open>The body of the \<^verbatim>\<open>try\<close> block, after \<^verbatim>\<open>JSON.parse\<close> has returned.\<close>

definition parsePayload :: "json \<Rightarrow> string + ParsedReceiptData" where
  "parsePayload parsed =
     (if \<not> truthy (Some parsed) \<or> typeof (Some parsed) \<noteq> ''object''
      then Inl ''Response is not an object''
      else (case getProp parsed ''items'' of
        Some (JArr raws) \<Rightarrow>
          (case getProp parsed ''total'' of
             Some (JNum t) \<Rightarrow>
               (if t < 0 then Inl ''Response.total is missing or invalid''
                else (case normalizeItems raws 0 of
                  Inl e \<Rightarrow> Inl e
                | Inr its \<Rightarrow>
                    Inr \<lparr> parsedItems = map asInternal (mergeAttachments its),
                          parsedTotal = t \<rparr>))
           | _ \<Rightarrow> Inl ''Response.total is missing or invalid'')
      | _ \<Rightarrow> Inl ''Response.items is not an array''))"

text \<open>
  \<^verbatim>\<open>JSON.parse\<close> is the language's own function and a parameter here: it returns the
  parsed value, or \<open>Inl\<close> the message of the SyntaxError it throws. Every error of the
  \<^verbatim>\<open>try\<close> block is caught and thrown again with the raw response appended.
\<close>

definition wrapParseError :: "string \<Rightarrow> string \<Rightarrow> string" where
  "wrapParseError message responseText =
     ''Failed to parse LLM response: '' @ message @ [CHR 0x0A, CHR 0x0A] @ ''Response:''
       @ [CHR 0x0A] @ responseText"

definition parseResponse ::
  "(string \<Rightarrow> string + json) \<Rightarrow> string \<Rightarrow> string + ParsedReceiptData" where
  "parseResponse JSON_parse responseText =
     (case (case JSON_parse (extractJson responseText) of
              Inl syntaxError \<Rightarrow> Inl syntaxError
            | Inr parsed \<Rightarrow> parsePayload parsed) of
        Inl message \<Rightarrow> Inl (wrapParseError message responseText)
      | Inr r \<Rightarrow> Inr r)"


section \<open>extract.ts\<close>

text \<open>
  The collaborators of extractReceiptItems are parameters: \<open>geminiResponse\<close> is what
  \<^verbatim>\<open>await callGemini(image, EXTRACTION_PROMPT)\<close> gives (the response text, or \<open>Inl\<close> the
  error it rejects with); \<open>batchVerifyItems\<close> returns the Map from names to verified names
  or rejects; the caller's callback may depend on anything, so it runs on a state \<open>'s\<close> of its
  own, and returns a result, \<^verbatim>\<open>null\<close> (\<open>None\<close>) or rejects (\<open>Inl\<close>). Logging with
  \<^verbatim>\<open>console.error\<close> is not modelled.
\<close>

type_synonym 's VerificationCallback =
  "string \<Rightarrow> VerificationContext \<Rightarrow> 's \<Rightarrow> (string + VerificationResult option) \<times> 's"

record 's ExtractOptions =
  verifyCallback :: "'s VerificationCallback option"
  autoVerify :: "bool option"

text \<open>\<^verbatim>\<open>options?.autoVerify !== false\<close> and \<^verbatim>\<open>options?.verifyCallback\<close>\<close>

fun autoVerifyNotFalse :: "'s ExtractOptions option \<Rightarrow> bool" where
  "autoVerifyNotFalse None = True"
| "autoVerifyNotFalse (Some opts) = (autoVerify opts \<noteq> Some False)"

fun optionsVerifyCallback :: "'s ExtractOptions option \<Rightarrow> 's VerificationCallback option" where
  "optionsVerifyCallback None = None"
| "optionsVerifyCallback (Some opts) = verifyCallback opts"

text \<open>
  The public shape of an item, \<^verbatim>\<open>({ needsVerification, ...item }) => ({...item})\<close>: every
  field but needsVerification, in a new object.
\<close>

definition toPublic :: "InternalReceiptItem \<Rightarrow> ReceiptItem" where
  "toPublic item =
     \<lparr> name = name item, price = price item, quantity = quantity item, hasTax = hasTax item,
       taxAmount = taxAmount item, deposit = deposit item, discount = discount item \<rparr>"

subsection \<open>Step 3a: the batch pass\<close>

text \<open>
  The loop that applies the verification map. Each round reads and writes its own item
  only, and the items are distinct objects, so the loop is a map over the list.
\<close>

definition applyVerification :: "(string \<rightharpoonup> string) \<Rightarrow> InternalReceiptItem \<Rightarrow> InternalReceiptItem" where
  "applyVerification verificationMap item =
     (if needsVerification item
      then (case verificationMap (name item) of
              Some verified \<Rightarrow>
                (if verified \<noteq> [] then item\<lparr>name := verified, needsVerification := False\<rparr>
                 else item)
            | None \<Rightarrow> item)
      else item)"

definition autoVerifyPass ::
  "(InternalReceiptItem list \<Rightarrow> string + (string \<rightharpoonup> string)) \<Rightarrow> 's ExtractOptions option
   \<Rightarrow> InternalReceiptItem list \<Rightarrow> InternalReceiptItem list" where
  "autoVerifyPass batchVerifyItems options its =
     (let itemsNeedingVerification = filter needsVerification its in
      if autoVerifyNotFalse options \<and> 0 < length itemsNeedingVerification
      then (case batchVerifyItems itemsNeedingVerification of
              Inr verificationMap \<Rightarrow> map (applyVerification verificationMap) its
            | Inl error \<Rightarrow> its)
      else its)"

subsection \<open>Step 3b: the callback pass\<close>

text \<open>
  One record for each invocation of the callback: the position of the item it was invoked
  for, the two arguments, and what it gave back.
\<close>

record CallbackCall =
  callIndex :: nat
  callName :: string
  callContext :: VerificationContext
  callOutcome :: "string + VerificationResult option"

text \<open>\<^verbatim>\<open>if (result && result.verifiedName) { item.name = ...; item.needsVerification = false }\<close>\<close>

fun applyOutcome :: "string + VerificationResult option \<Rightarrow> InternalReceiptItem \<Rightarrow> InternalReceiptItem" where
  "applyOutcome (Inr (Some result)) item =
     (if verifiedName result \<noteq> [] then item\<lparr>name := verifiedName result, needsVerification := False\<rparr>
      else item)"
| "applyOutcome (Inr None) item = item"
| "applyOutcome (Inl error) item = item"

text \<open>
  The \<^verbatim>\<open>for (const item of parsedItems)\<close> loop: \<open>visited\<close> are the items already passed, in
  their current state, \<open>item # rest\<close> the items still to come. The context is built from the
  whole array as it is at that moment.
\<close>

fun callbackLoop ::
  "'s VerificationCallback \<Rightarrow> string \<Rightarrow> InternalReceiptItem list \<Rightarrow> InternalReceiptItem list
   \<Rightarrow> 's \<Rightarrow> CallbackCall list \<Rightarrow> InternalReceiptItem list \<times> 's \<times> CallbackCall list" where
  "callbackLoop cb responseText visited [] s calls = (visited, s, calls)"
| "callbackLoop cb responseText visited (item # rest) s calls =
     (if needsVerification item
      then (let verificationContext =
                  \<lparr> rawText = responseText, allItems = map toPublic (visited @ item # rest) \<rparr>
            in case cb (name item) verificationContext s of
              (outcome, s') \<Rightarrow>
                callbackLoop cb responseText (visited @ [applyOutcome outcome item]) rest s'
                  (calls @ [\<lparr> callIndex = length visited, callName = name item,
                              callContext = verificationContext, callOutcome = outcome \<rparr>]))
      else callbackLoop cb responseText (visited @ [item]) rest s calls)"

definition callbackPass ::
  "'s ExtractOptions option \<Rightarrow> string \<Rightarrow> InternalReceiptItem list \<Rightarrow> 's
   \<Rightarrow> InternalReceiptItem list \<times> 's \<times> CallbackCall list" where
  "callbackPass options responseText its s =
     (case optionsVerifyCallback options of
        Some cb \<Rightarrow> callbackLoop cb responseText [] its s []
      | None \<Rightarrow> (its, s, []))"

subsection \<open>extractReceiptItems\<close>

text \<open>
  The outcome of a call: the value returned or the error thrown, with the callback's final
  state and the invocations of the callback in the order they were made.
\<close>

record 's Extraction =
  returned :: "string + ReceiptData"
  callbackState :: 's
  callbackCalls :: "CallbackCall list"

definition extractReceiptItems ::
  "(string \<Rightarrow> string + json) \<Rightarrow> string + string
   \<Rightarrow> (InternalReceiptItem list \<Rightarrow> string + (string \<rightharpoonup> string))
   \<Rightarrow> 's ExtractOptions option \<Rightarrow> 's \<Rightarrow> 's Extraction" where
  "extractReceiptItems JSON_parse geminiResponse batchVerifyItems options s =
     (case geminiResponse of
        Inl error \<Rightarrow> \<lparr> returned = Inl error, callbackState = s, callbackCalls = [] \<rparr>
      | Inr responseText \<Rightarrow>
          (case parseResponse JSON_parse responseText of
             Inl error \<Rightarrow> \<lparr> returned = Inl error, callbackState = s, callbackCalls = [] \<rparr>
           | Inr parsed \<Rightarrow>
               (case callbackPass options responseText
                       (autoVerifyPass batchVerifyItems options (parsedItems parsed)) s of
                  (its, s', calls) \<Rightarrow>
                    \<lparr> returned = Inr \<lparr> items = map toPublic its, total_amt = parsedTotal parsed \<rparr>,
                      callbackState = s', callbackCalls = calls \<rparr>)))"

section \<open>Step 4 on an explicit store\<close>

text \<open>
  Objects live in a store, a list of cells addressed by position; an array is a cell that
  holds the addresses of its elements. Allocation appends a cell, so a new address is
  never one in use.
\<close>

datatype cell =
    ItemCell InternalReceiptItem
  | PublicCell ReceiptItem
  | ArrayCell "nat list"

type_synonym store = "cell list"

definition alloc :: "store \<Rightarrow> cell \<Rightarrow> store \<times> nat" where
  "alloc h c = (h @ [c], length h)"

text \<open>
  The arrow function of \<^verbatim>\<open>parsedItems.map\<close> on each element in turn: the rest pattern
  \<^verbatim>\<open>{ needsVerification, ...item }\<close> allocates an object with the other fields, and the
  spread \<^verbatim>\<open>{...item}\<close> allocates a copy of that object, which is the element of the result.
  An address that does not hold an internal item has no model (\<open>None\<close>).
\<close>

fun projectElements :: "store \<Rightarrow> nat list \<Rightarrow> (store \<times> nat list) option" where
  "projectElements h [] = Some (h, [])"
| "projectElements h (a # as) =
     (if a < length h
      then (case h ! a of
        ItemCell item \<Rightarrow>
          (case alloc h (PublicCell (toPublic item)) of
             (h1, restObject) \<Rightarrow>
               (case alloc h1 (h1 ! restObject) of
                  (h2, copy) \<Rightarrow>
                    (case projectElements h2 as of
                       Some (h3, out) \<Rightarrow> Some (h3, copy # out)
                     | None \<Rightarrow> None)))
      | _ \<Rightarrow> None)
      else None)"

text \<open>\<^verbatim>\<open>const finalItems = parsedItems.map(...)\<close>, given the address of the array parsedItems.\<close>

definition publicProjection :: "store \<Rightarrow> nat \<Rightarrow> (store \<times> nat) option" where
  "publicProjection h parsedItemsAddr =
     (if parsedItemsAddr < length h
      then (case h ! parsedItemsAddr of
        ArrayCell addrs \<Rightarrow>
          (case projectElements h addrs of
             Some (h', out) \<Rightarrow> Some (alloc h' (ArrayCell out))
           | None \<Rightarrow> None)
      | _ \<Rightarrow> None)
      else None)"


section \<open>Example records\<close>

text \<open>
  The records of the end-to-end scenario: an item, a deposit of 0.5 with quantity 2, and a
  discount of 0.5, as normalizeRawItem returns them.
\<close>

definition exMilk :: RawReceiptItem where
  "exMilk = \<lparr> name = ''ORG MLK'', price = 25 / 2, quantity = 1, hasTax = False,
     taxAmount = None, deposit = None, discount = None, needsVerification = True,
     isAttachment = None, attachmentType = None, attachedTo = None \<rparr>"

definition exDeposit :: RawReceiptItem where
  "exDeposit = \<lparr> name = ''Deposit'', price = 1 / 2, quantity = 2, hasTax = False,
     taxAmount = None, deposit = None, discount = None, needsVerification = False,
     isAttachment = Some True, attachmentType = Some (JStr ''deposit''), attachedTo = None \<rparr>"

definition exDiscount :: RawReceiptItem where
  "exDiscount = \<lparr> name = ''TPD'', price = 1 / 2, quantity = 1, hasTax = False,
     taxAmount = None, deposit = None, discount = None, needsVerification = False,
     isAttachment = Some True, attachmentType = Some (JStr ''discount''), attachedTo = None \<rparr>"


section \<open>Example collaborators\<close>

text \<open>
  A response with three flagged items and one that is not flagged, a batch verifier that
  resolves the first item, one that fails, and a callback that counts its invocations,
  fails on the third item and resolves the second.
\<close>

definition exThreeText :: string where
  \<open>exThreeText = ''{"items":[{"name":"ORG MLK","price":12.5,"needsVerification":true},{"name":"KS APL","price":4.5,"quantity":3,"needsVerification":true},{"name":"ORG BRD","price":8,"needsVerification":true},{"name":"Bananas","price":2}],"total":99}''\<close>

definition exThreePayload :: json where
  "exThreePayload =
     JObj [(''items'', JArr [
        JObj [(''name'', JStr ''ORG MLK''), (''price'', JNum (25 / 2)),
              (''needsVerification'', JBool True)],
        JObj [(''name'', JStr ''KS APL''), (''price'', JNum (9 / 2)), (''quantity'', JNum 3),
              (''needsVerification'', JBool True)],
        JObj [(''name'', JStr ''ORG BRD''), (''price'', JNum 8),
              (''needsVerification'', JBool True)],
        JObj [(''name'', JStr ''Bananas''), (''price'', JNum 2)]]),
       (''total'', JNum 99)]"

definition exThreeParse :: "string \<Rightarrow> string + json" where
  "exThreeParse s = (if s = exThreeText then Inr exThreePayload else Inl ''Unexpected token'')"

definition exItem :: "string \<Rightarrow> rat \<Rightarrow> rat \<Rightarrow> bool \<Rightarrow> InternalReceiptItem" where
  "exItem n p q v =
     \<lparr> name = n, price = p, quantity = q, hasTax = False, taxAmount = None, deposit = None,
       discount = None, needsVerification = v \<rparr>"

definition exThreeItems :: "InternalReceiptItem list" where
  "exThreeItems =
     [exItem ''ORG MLK'' (25 / 2) 1 True, exItem ''KS APL'' (9 / 2) 3 True,
      exItem ''ORG BRD'' 8 1 True, exItem ''Bananas'' 2 1 False]"

definition exBatchResolves :: "InternalReceiptItem list \<Rightarrow> string + (string \<rightharpoonup> string)" where
  "exBatchResolves flagged = Inr [''ORG MLK'' \<mapsto> ''Organic Milk 1L'']"

definition exBatchFails :: "InternalReceiptItem list \<Rightarrow> string + (string \<rightharpoonup> string)" where
  "exBatchFails flagged = Inl ''search unavailable''"

definition exCallback :: "nat VerificationCallback" where
  "exCallback n context s =
     (if n = ''ORG BRD'' then Inl ''lookup failed''
      else if n = ''KS APL'' then Inr (Some \<lparr> verifiedName = ''Fuji Apples'' \<rparr>)
      else Inr None,
      Suc s)"

definition exOptions :: "nat ExtractOptions option" where
  "exOptions = Some \<lparr> verifyCallback = Some exCallback, autoVerify = None \<rparr>"


section \<open>Example store\<close>

text \<open>Two internal items and the array parsedItems that holds them.\<close>

definition exStore :: store where
  "exStore =
     [ItemCell (exItem ''ORG MLK'' (25 / 2) 1 True), ItemCell (exItem ''Bananas'' 2 1 False),
      ArrayCell [0, 1]]"


section \<open>Reading the record of invocations\<close>

text \<open>
  A list of invocations is the run of a callback from the state \<open>s\<close> when each outcome is
  what the callback gives for the recorded arguments in the state the one before left; the
  result is the state after the last invocation.
\<close>

fun replayCalls :: "'s VerificationCallback \<Rightarrow> 's \<Rightarrow> CallbackCall list \<Rightarrow> 's option" where
  "replayCalls cb s [] = Some s"
| "replayCalls cb s (c # cs) =
     (case cb (callName c) (callContext c) s of
        (outcome, s1) \<Rightarrow> if outcome = callOutcome c then replayCalls cb s1 cs else None)"


section \<open>The parser's contract in the words of the specification\<close>






section \<open>Example responses\<close>










section \<open>The normalization rules in the words of the specification\<close>

text \<open>
  The fields of an item that attachment merging does not touch.
\<close>

definition coreFields ::
  "'a InternalReceiptItem_scheme \<Rightarrow> string \<times> rat \<times> rat \<times> bool \<times> rat option \<times> bool" where
  "coreFields x = (name x, price x, quantity x, hasTax x, taxAmount x, needsVerification x)"







section \<open>Properties of mergeAttachments\<close>

lemma length_pushCurrent:
  "length (pushCurrent result cur) = length result + (case cur of None \<Rightarrow> 0 | Some c \<Rightarrow> 1)"
  by (cases cur) simp_all

lemma mergeLoop_append:
  "mergeLoop (xs @ ys) result cur =
     (case mergeLoop xs result cur of (r, c) \<Rightarrow> mergeLoop ys r c)"
  by (induction xs result cur rule: mergeLoop.induct) (simp_all split: option.splits)

lemma orZero_case: "orZero x = (case x of None \<Rightarrow> 0 | Some d \<Rightarrow> d)"
  by (cases x) simp_all

text \<open>Every record that is not an attachment gives one output item, and nothing else does.\<close>

lemma mergeLoop_length:
  "mergeLoop its result cur = (result', cur') \<Longrightarrow>
   length (pushCurrent result' cur') =
     length (pushCurrent result cur) + length (filter (\<lambda>x. \<not> isAttachmentRecord x) its)"
proof (induction its arbitrary: result cur)
  case Nil
  then show ?case by simp
next
  case (Cons item rest)
  show ?case
  proof (cases "isAttachmentRecord item")
    case False
    with Cons.prems have "mergeLoop rest (pushCurrent result cur) (Some item) = (result', cur')"
      by simp
    from Cons.IH [OF this] False show ?thesis by simp
  next
    case True
    show ?thesis
    proof (cases cur)
      case None
      with True Cons.prems have "mergeLoop rest result None = (result', cur')" by simp
      from Cons.IH [OF this] True None show ?thesis by simp
    next
      case (Some c)
      with True Cons.prems obtain c' where "mergeLoop rest result (Some c') = (result', cur')"
        by (auto split: if_splits)
      from Cons.IH [OF this] True Some show ?thesis by simp
    qed
  qed
qed

lemma length_mergeAttachments:
  "length (mergeAttachments its) = length (filter (\<lambda>x. \<not> isAttachmentRecord x) its)"
proof -
  obtain r c where rc: "mergeLoop its [] None = (r, c)" by (cases "mergeLoop its [] None")
  from mergeLoop_length [OF rc] rc show ?thesis by (simp add: mergeAttachments_def)
qed

lemma mergeLoop_leading:
  "list_all isAttachmentRecord pre \<Longrightarrow>
   mergeLoop (pre @ its) result None = mergeLoop its result None"
  by (induction pre) simp_all

lemma mergeLoop_no_attachment:
  "\<forall>x \<in> set its. \<not> isAttachmentRecord x \<Longrightarrow>
   mergeLoop its result cur = (result', cur') \<Longrightarrow>
   pushCurrent result' cur' = pushCurrent result cur @ its"
proof (induction its arbitrary: result cur)
  case Nil
  then show ?case by simp
next
  case (Cons item rest)
  then have "mergeLoop rest (pushCurrent result cur) (Some item) = (result', cur')" by simp
  with Cons.IH Cons.prems(1)
  have "pushCurrent result' cur' = pushCurrent (pushCurrent result cur) (Some item) @ rest"
    by simp
  then show ?case by simp
qed

lemma mergeAttachments_no_attachment:
  assumes "\<forall>x \<in> set its. \<not> isAttachmentRecord x"
  shows "mergeAttachments its = map cleanItem its"
proof -
  obtain r c where rc: "mergeLoop its [] None = (r, c)" by (cases "mergeLoop its [] None")
  from mergeLoop_no_attachment [OF assms rc] rc show ?thesis by (simp add: mergeAttachments_def)
qed

lemma cleanItem_fields:
  "isAttachment (cleanItem x) = None"
  "attachmentType (cleanItem x) = None"
  "attachedTo (cleanItem x) = None"
  by (simp_all add: cleanItem_def)

lemma cleanItem_idem: "cleanItem (cleanItem x) = cleanItem x"
  by (simp add: cleanItem_def)

lemma mergeAttachments_clean:
  "x \<in> set (mergeAttachments its) \<Longrightarrow> \<exists>y. x = cleanItem y"
  by (auto simp: mergeAttachments_def split: prod.splits)

lemma mergeAttachments_stripped:
  assumes "x \<in> set (mergeAttachments its)"
  shows "isAttachment x = None \<and> attachmentType x = None \<and> attachedTo x = None"
proof -
  from mergeAttachments_clean [OF assms] obtain y where "x = cleanItem y" ..
  then show ?thesis by (simp add: cleanItem_fields)
qed

lemma length_filter_split:
  "length (filter (\<lambda>x. \<not> P x) xs) + length (filter P xs) = length xs"
  by (induction xs) simp_all

text \<open>
  Claim C2. Wherever an attachment record \<open>a\<close> stands in the input, if the records before
  it leave the item \<open>c\<close> open, then a deposit attachment adds \<open>price a * quantity a\<close> to the
  deposit of \<open>c\<close>, an absent deposit counting as 0, and a discount attachment subtracts
  \<open>price a\<close> alone from the discount of \<open>c\<close>; the loop goes on with the item so changed. So a
  discount of 0.5 after an item without discount is stored as -0.5, and a deposit of 0.5
  with quantity 2 after an item without deposit is stored as 1.
\<close>

theorem C2_attachment_amounts:
  assumes pre: "mergeLoop pre [] None = (result, Some c)"
    and att: "isAttachmentRecord a"
    and item: "\<not> isAttachmentRecord item"
  shows "(attachmentType a = Some (JStr ''deposit'') \<longrightarrow>
            mergeLoop (pre @ a # post) [] None =
              mergeLoop post result
                (Some (c\<lparr>deposit :=
                   Some ((case deposit c of None \<Rightarrow> 0 | Some d \<Rightarrow> d) + price a * quantity a)\<rparr>)))
       \<and> (attachmentType a = Some (JStr ''discount'') \<longrightarrow>
            mergeLoop (pre @ a # post) [] None =
              mergeLoop post result
                (Some (c\<lparr>discount :=
                   Some ((case discount c of None \<Rightarrow> 0 | Some d \<Rightarrow> d) - price a)\<rparr>)))
       \<and> (attachmentType a = Some (JStr ''discount'') \<and> price a = 1 / 2 \<and> discount item = None \<longrightarrow>
            map discount (mergeAttachments [item, a]) = [Some (- (1 / 2))])
       \<and> (attachmentType a = Some (JStr ''deposit'') \<and> price a = 1 / 2 \<and> quantity a = 2
            \<and> deposit item = None \<longrightarrow>
            map deposit (mergeAttachments [item, a]) = [Some 1])"
proof -
  have "attachmentType a = Some (JStr ''deposit'') \<longrightarrow>
            mergeLoop (pre @ a # post) [] None =
              mergeLoop post result
                (Some (c\<lparr>deposit :=
                   Some ((case deposit c of None \<Rightarrow> 0 | Some d \<Rightarrow> d) + price a * quantity a)\<rparr>))"
    using pre att by (simp add: mergeLoop_append orZero_case del: orZero.simps)
  moreover have "attachmentType a = Some (JStr ''discount'') \<longrightarrow>
            mergeLoop (pre @ a # post) [] None =
              mergeLoop post result
                (Some (c\<lparr>discount :=
                   Some ((case discount c of None \<Rightarrow> 0 | Some d \<Rightarrow> d) - price a)\<rparr>))"
    using pre att by (simp add: mergeLoop_append orZero_case del: orZero.simps)
  moreover have "attachmentType a = Some (JStr ''discount'') \<and> price a = 1 / 2
      \<and> discount item = None \<longrightarrow>
            map discount (mergeAttachments [item, a]) = [Some (- (1 / 2))]"
    using att item by (simp add: mergeAttachments_def cleanItem_def)
  moreover have "attachmentType a = Some (JStr ''deposit'') \<and> price a = 1 / 2 \<and> quantity a = 2
            \<and> deposit item = None \<longrightarrow>
            map deposit (mergeAttachments [item, a]) = [Some 1]"
    using att item by (simp add: mergeAttachments_def cleanItem_def)
  ultimately show ?thesis by blast
qed

theorem C2_attachment_amounts_witness:
  "mergeLoop [exMilk] [] None = ([], Some exMilk)
   \<and> isAttachmentRecord exDeposit \<and> isAttachmentRecord exDiscount
   \<and> \<not> isAttachmentRecord exMilk
   \<and> mergeLoop ([exMilk] @ exDeposit # [exDiscount]) [] None =
       mergeLoop [exDiscount] [] (Some (exMilk\<lparr>deposit := Some 1\<rparr>))
   \<and> mergeLoop ([exMilk] @ exDiscount # []) [] None =
       ([], Some (exMilk\<lparr>discount := Some (- (1 / 2))\<rparr>))
   \<and> map discount (mergeAttachments [exMilk, exDiscount]) = [Some (- (1 / 2))]
   \<and> map deposit (mergeAttachments [exMilk, exDeposit]) = [Some 1]"
proof -
  have pre: "mergeLoop [exMilk] [] None = ([], Some exMilk)"
    by (simp add: exMilk_def isAttachmentRecord_def)
  have d: "isAttachmentRecord exDeposit" and t: "isAttachmentRecord exDiscount"
    by (simp_all add: exDeposit_def exDiscount_def isAttachmentRecord_def)
  have m: "\<not> isAttachmentRecord exMilk"
    by (simp add: exMilk_def isAttachmentRecord_def)
  show ?thesis
    using pre d t m
      C2_attachment_amounts [OF pre d m, of "[exDiscount]"]
      C2_attachment_amounts [OF pre t m, of "[]"]
    by (simp add: exMilk_def exDeposit_def exDiscount_def)
qed

text \<open>
  Claim C6. An attachment record met while no item is open is dropped: the loop goes on
  unchanged, and attachment records at the head of the input vanish from the output. Every
  output item has none of the three attachment fields. The output has one item for each
  input record that is not an attachment, so it is never longer than the input and is
  shorter whenever the input holds an attachment record.
\<close>

theorem C6_attachments_dropped:
  "(isAttachmentRecord a \<longrightarrow> mergeLoop (a # rest) result None = mergeLoop rest result None)
   \<and> (list_all isAttachmentRecord pre \<longrightarrow> mergeAttachments (pre @ its) = mergeAttachments its)
   \<and> (\<forall>x \<in> set (mergeAttachments its).
         isAttachment x = None \<and> attachmentType x = None \<and> attachedTo x = None)
   \<and> length (mergeAttachments its) + length (filter isAttachmentRecord its) = length its
   \<and> length (mergeAttachments its) \<le> length its
   \<and> ((\<exists>x \<in> set its. isAttachmentRecord x) \<longrightarrow> length (mergeAttachments its) < length its)"
proof -
  have len: "length (mergeAttachments its) + length (filter isAttachmentRecord its) = length its"
    by (simp add: length_mergeAttachments length_filter_split)
  have "(\<exists>x \<in> set its. isAttachmentRecord x) \<longrightarrow> 0 < length (filter isAttachmentRecord its)"
    by (auto simp: filter_empty_conv)
  with len have lt: "(\<exists>x \<in> set its. isAttachmentRecord x) \<longrightarrow> length (mergeAttachments its) < length its"
    by linarith
  have lead: "list_all isAttachmentRecord pre \<longrightarrow> mergeAttachments (pre @ its) = mergeAttachments its"
    by (simp add: mergeAttachments_def mergeLoop_leading)
  have strip: "\<forall>x \<in> set (mergeAttachments its).
         isAttachment x = None \<and> attachmentType x = None \<and> attachedTo x = None"
    using mergeAttachments_stripped by blast
  have step: "isAttachmentRecord a \<longrightarrow> mergeLoop (a # rest) result None = mergeLoop rest result None"
    by simp
  from len have le: "length (mergeAttachments its) \<le> length its" by linarith
  from step lead strip len le lt show ?thesis by blast
qed

theorem C6_attachments_dropped_witness:
  "isAttachmentRecord exDeposit
   \<and> list_all isAttachmentRecord [exDeposit]
   \<and> mergeLoop (exDeposit # [exMilk]) [] None = mergeLoop [exMilk] [] None
   \<and> mergeAttachments ([exDeposit] @ [exMilk, exDiscount]) = mergeAttachments [exMilk, exDiscount]
   \<and> map name (mergeAttachments [exDeposit, exMilk, exDiscount]) = [''ORG MLK'']
   \<and> map isAttachment (mergeAttachments [exDeposit, exMilk, exDiscount]) = [None]
   \<and> (\<exists>x \<in> set [exMilk, exDiscount]. isAttachmentRecord x)
   \<and> length (mergeAttachments [exMilk, exDiscount]) < length [exMilk, exDiscount]"
proof -
  have d: "isAttachmentRecord exDeposit" and t: "isAttachmentRecord exDiscount"
    by (simp_all add: exDeposit_def exDiscount_def isAttachmentRecord_def)
  have m: "\<not> isAttachmentRecord exMilk"
    by (simp add: exMilk_def isAttachmentRecord_def)
  have ev: "map name (mergeAttachments [exDeposit, exMilk, exDiscount]) = [''ORG MLK'']
     \<and> map isAttachment (mergeAttachments [exDeposit, exMilk, exDiscount]) = [None]"
    using d t m by (simp add: mergeAttachments_def cleanItem_def exMilk_def exDiscount_def)
  show ?thesis
    using d t m ev
      C6_attachments_dropped [where a = exDeposit and rest = "[exMilk]" and result = "[]"
        and pre = "[exDeposit]" and its = "[exMilk, exDiscount]"]
    by simp
qed

text \<open>
  Claim C10. Merging is idempotent: the output holds no attachment record, so merging it
  again only copies each item and removes the attachment fields it no longer has.
\<close>

theorem C10_merge_idempotent:
  "mergeAttachments (mergeAttachments its) = mergeAttachments its
   \<and> filter isAttachmentRecord (mergeAttachments its) = []"
proof -
  have na: "\<forall>x \<in> set (mergeAttachments its). \<not> isAttachmentRecord x"
    using mergeAttachments_stripped by (simp add: isAttachmentRecord_def)
  have "mergeAttachments (mergeAttachments its) = map cleanItem (mergeAttachments its)"
    using na by (rule mergeAttachments_no_attachment)
  also have "\<dots> = mergeAttachments its"
  proof (rule map_idI)
    fix x assume "x \<in> set (mergeAttachments its)"
    from mergeAttachments_clean [OF this] obtain y where "x = cleanItem y" ..
    then show "cleanItem x = x" by (simp add: cleanItem_idem)
  qed
  finally have "mergeAttachments (mergeAttachments its) = mergeAttachments its" .
  moreover from na have "filter isAttachmentRecord (mergeAttachments its) = []"
    by (simp add: filter_empty_conv)
  ultimately show ?thesis by simp
qed

theorem C10_merge_idempotent_witness:
  "mergeAttachments (mergeAttachments [exDeposit, exMilk, exDeposit, exDiscount])
     = mergeAttachments [exDeposit, exMilk, exDeposit, exDiscount]
   \<and> map deposit (mergeAttachments [exDeposit, exMilk, exDeposit, exDiscount]) = [Some 1]
   \<and> map discount (mergeAttachments [exDeposit, exMilk, exDeposit, exDiscount]) = [Some (- (1 / 2))]"
proof -
  have ev: "map deposit (mergeAttachments [exDeposit, exMilk, exDeposit, exDiscount]) = [Some 1]
   \<and> map discount (mergeAttachments [exDeposit, exMilk, exDeposit, exDiscount]) = [Some (- (1 / 2))]"
    by (simp add: mergeAttachments_def cleanItem_def isAttachmentRecord_def
        exMilk_def exDeposit_def exDiscount_def)
  show ?thesis
    using ev C10_merge_idempotent [of "[exDeposit, exMilk, exDeposit, exDiscount]"]
    by simp
qed


section \<open>Properties of parseResponse\<close>
















section \<open>Properties of normalizeRawItem\<close>

lemma coreFields_update [simp]:
  "coreFields (x\<lparr>deposit := d\<rparr>) = coreFields x"
  "coreFields (x\<lparr>discount := e\<rparr>) = coreFields x"
  by (simp_all add: coreFields_def)

lemma coreFields_asInternal_cleanItem: "coreFields (asInternal (cleanItem x)) = coreFields x"
  by (simp add: coreFields_def asInternal_def cleanItem_def)




lemma parsePayload_Inr:
  assumes "parsePayload parsed = Inr p"
  shows "\<exists>raws rs. getProp parsed ''items'' = Some (JArr raws)
           \<and> getProp parsed ''total'' = Some (JNum (parsedTotal p))
           \<and> normalizeItems raws 0 = Inr rs
           \<and> parsedItems p = map asInternal (mergeAttachments rs)"
  using assms
  by (auto simp: parsePayload_def split: if_splits option.splits json.splits sum.splits)



lemma numberOrUndefined_number:
  "typeof v = ''number'' \<Longrightarrow> v = Some (JNum n) \<longleftrightarrow> numberOrUndefined v = Some n"
  by (cases v rule: typeof.cases) simp_all

lemma truthy_boolean: "truthy (Some (JBool b)) = b" "truthy None = False"
  by simp_all






section \<open>Properties of the verification passes\<close>

lemma applyOutcome_resolved:
  "verifiedName r \<noteq> [] \<Longrightarrow>
   applyOutcome (Inr (Some r)) item = item\<lparr>name := verifiedName r, needsVerification := False\<rparr>"
  by simp

lemma applyOutcome_unresolved:
  "\<not> (\<exists>r. outcome = Inr (Some r) \<and> verifiedName r \<noteq> []) \<Longrightarrow> applyOutcome outcome item = item"
  by (cases "(outcome, item)" rule: applyOutcome.cases) auto

text \<open>The loop keeps what it has passed and returns one item for each item of the array.\<close>

lemma callbackLoop_shape:
  "callbackLoop cb raw visited todo s calls = (final, s', calls') \<Longrightarrow>
   length final = length visited + length todo \<and> take (length visited) final = visited
   \<and> (\<exists>new. calls' = calls @ new)"
proof (induction todo arbitrary: visited s calls)
  case Nil
  then show ?case by simp
next
  case (Cons item rest)
  show ?case
  proof (cases "needsVerification item")
    case False
    with Cons.prems have "callbackLoop cb raw (visited @ [item]) rest s calls = (final, s', calls')"
      by simp
    from Cons.IH [OF this]
    have l: "length final = length (visited @ [item]) + length rest"
      and t: "take (length (visited @ [item])) final = visited @ [item]"
      and n: "\<exists>new. calls' = calls @ new" by blast+
    from t have "take (length visited) (take (length (visited @ [item])) final) = visited"
      by simp
    then have "take (length visited) final = visited" by (simp add: min_def)
    with l n show ?thesis by simp
  next
    case True
    obtain outcome s1 where cb:
      "cb (name item) \<lparr> rawText = raw, allItems = map toPublic (visited @ item # rest) \<rparr> s
         = (outcome, s1)" by (cases "cb (name item)
           \<lparr> rawText = raw, allItems = map toPublic (visited @ item # rest) \<rparr> s")
    with True Cons.prems obtain call where
      "callbackLoop cb raw (visited @ [applyOutcome outcome item]) rest s1 (calls @ [call])
         = (final, s', calls')"
      by simp
    from Cons.IH [OF this]
    have l: "length final = length (visited @ [applyOutcome outcome item]) + length rest"
      and t: "take (length (visited @ [applyOutcome outcome item])) final
               = visited @ [applyOutcome outcome item]"
      and n: "\<exists>new. calls' = (calls @ [call]) @ new" by blast+
    from t have "take (length visited)
        (take (length (visited @ [applyOutcome outcome item])) final) = visited"
      by simp
    then have "take (length visited) final = visited" by (simp add: min_def)
    with l n show ?thesis by auto
  qed
qed


lemma nth_of_take_snoc:
  "take (Suc (length ys)) xs = ys @ [x] \<Longrightarrow> xs ! length ys = x"
proof -
  assume a: "take (Suc (length ys)) xs = ys @ [x]"
  have "xs ! length ys = take (Suc (length ys)) xs ! length ys" by simp
  also have "\<dots> = x" by (simp only: a nth_append_length)
  finally show ?thesis .
qed

lemma nth_beyond:
  "length visited < i \<Longrightarrow> (visited @ x # rest) ! i = (visited @ y # rest) ! i"
  by (simp add: nth_append)

lemma drop_beyond:
  assumes "length visited < i"
  shows "drop i (visited @ x # rest) = drop i (visited @ y # rest)"
proof -
  from assms obtain k where "i = length visited + Suc k"
    using less_imp_Suc_add by auto
  then show ?thesis by simp
qed

lemma upt_head: "[n..<n + length (x # xs)] = n # [Suc n..<Suc n + length xs]"
  by (simp add: upt_conv_Cons del: upt_Suc)

text \<open>
  The invocations of one run of the loop: one for each flagged item, in the order of the
  array, each with the name of its item and with a context built from the items as they
  are at that moment, those before it already in their final state.
\<close>

lemma callbackLoop_calls:
  "callbackLoop cb raw visited todo s calls = (final, s', calls') \<Longrightarrow>
   \<exists>new. calls' = calls @ new
     \<and> map callIndex new =
         filter (\<lambda>i. needsVerification ((visited @ todo) ! i))
           [length visited..<length visited + length todo]
     \<and> (\<forall>c \<in> set new.
           callName c = name ((visited @ todo) ! callIndex c)
         \<and> callContext c =
             \<lparr> rawText = raw,
               allItems = map toPublic (take (callIndex c) final
                                        @ drop (callIndex c) (visited @ todo)) \<rparr>
         \<and> final ! callIndex c = applyOutcome (callOutcome c) ((visited @ todo) ! callIndex c))
     \<and> (\<forall>i. length visited \<le> i \<and> i < length visited + length todo
              \<and> \<not> needsVerification ((visited @ todo) ! i) \<longrightarrow>
            final ! i = (visited @ todo) ! i)"
proof (induction todo arbitrary: visited s calls)
  case Nil
  then show ?case by simp
next
  case (Cons item rest)
  let ?n = "length visited"
  show ?case
  proof (cases "needsVerification item")
    case False
    with Cons.prems have run: "callbackLoop cb raw (visited @ [item]) rest s calls = (final, s', calls')"
      by simp
    from callbackLoop_shape [OF run] have "take (Suc ?n) final = visited @ [item]" by simp
    then have here: "final ! ?n = item" by (rule nth_of_take_snoc)
    from Cons.IH [OF run] obtain new where new: "calls' = calls @ new"
      and idx: "map callIndex new =
         filter (\<lambda>i. needsVerification ((visited @ item # rest) ! i)) [Suc ?n..<Suc ?n + length rest]"
      and each: "\<forall>c \<in> set new.
           callName c = name ((visited @ item # rest) ! callIndex c)
         \<and> callContext c =
             \<lparr> rawText = raw,
               allItems = map toPublic (take (callIndex c) final
                                        @ drop (callIndex c) (visited @ item # rest)) \<rparr>
         \<and> final ! callIndex c
             = applyOutcome (callOutcome c) ((visited @ item # rest) ! callIndex c)"
      and same: "\<forall>i. Suc ?n \<le> i \<and> i < Suc ?n + length rest
              \<and> \<not> needsVerification ((visited @ item # rest) ! i) \<longrightarrow>
            final ! i = (visited @ item # rest) ! i"
      by auto
    have idx': "map callIndex new =
         filter (\<lambda>i. needsVerification ((visited @ item # rest) ! i))
           [?n..<?n + length (item # rest)]"
      unfolding upt_head using idx False by simp
    have same': "\<forall>i. ?n \<le> i \<and> i < ?n + length (item # rest)
              \<and> \<not> needsVerification ((visited @ item # rest) ! i) \<longrightarrow>
            final ! i = (visited @ item # rest) ! i"
    proof (intro allI impI)
      fix i assume i: "?n \<le> i \<and> i < ?n + length (item # rest)
              \<and> \<not> needsVerification ((visited @ item # rest) ! i)"
      show "final ! i = (visited @ item # rest) ! i"
      proof (cases "i = ?n")
        case True
        with here show ?thesis by simp
      next
        case False
        with i same show ?thesis by simp
      qed
    qed
    from new idx' each same' show ?thesis by blast
  next
    case True
    let ?ctx = "\<lparr> rawText = raw, allItems = map toPublic (visited @ item # rest) \<rparr>"
    obtain outcome s1 where cb: "cb (name item) ?ctx s = (outcome, s1)"
      by (cases "cb (name item) ?ctx s")
    let ?item' = "applyOutcome outcome item"
    let ?call = "\<lparr> callIndex = ?n, callName = name item, callContext = ?ctx,
                   callOutcome = outcome \<rparr>"
    from True cb Cons.prems
    have run: "callbackLoop cb raw (visited @ [?item']) rest s1 (calls @ [?call])
                 = (final, s', calls')"
      by simp
    from callbackLoop_shape [OF run] have tk: "take (Suc ?n) final = visited @ [?item']"
      by simp
    then have here: "final ! ?n = ?item'" by (rule nth_of_take_snoc)
    from tk have "take ?n (take (Suc ?n) final) = visited" by simp
    then have before: "take ?n final = visited" by (simp add: min_def)
    from Cons.IH [OF run] obtain new where new: "calls' = (calls @ [?call]) @ new"
      and idx: "map callIndex new =
         filter (\<lambda>i. needsVerification ((visited @ ?item' # rest) ! i))
           [Suc ?n..<Suc ?n + length rest]"
      and each: "\<forall>c \<in> set new.
           callName c = name ((visited @ ?item' # rest) ! callIndex c)
         \<and> callContext c =
             \<lparr> rawText = raw,
               allItems = map toPublic (take (callIndex c) final
                                        @ drop (callIndex c) (visited @ ?item' # rest)) \<rparr>
         \<and> final ! callIndex c
             = applyOutcome (callOutcome c) ((visited @ ?item' # rest) ! callIndex c)"
      and same: "\<forall>i. Suc ?n \<le> i \<and> i < Suc ?n + length rest
              \<and> \<not> needsVerification ((visited @ ?item' # rest) ! i) \<longrightarrow>
            final ! i = (visited @ ?item' # rest) ! i"
      by auto
    have flt: "filter (\<lambda>i. needsVerification ((visited @ ?item' # rest) ! i))
           [Suc ?n..<Suc ?n + length rest]
        = filter (\<lambda>i. needsVerification ((visited @ item # rest) ! i))
           [Suc ?n..<Suc ?n + length rest]"
    proof (rule filter_cong [OF refl])
      fix i assume "i \<in> set [Suc ?n..<Suc ?n + length rest]"
      then have "?n < i" by (simp del: upt_Suc)
      then show "needsVerification ((visited @ ?item' # rest) ! i)
          = needsVerification ((visited @ item # rest) ! i)"
        by (simp only: nth_beyond [of visited i ?item' rest item])
    qed
    have idx': "map callIndex (?call # new) =
         filter (\<lambda>i. needsVerification ((visited @ item # rest) ! i))
           [?n..<?n + length (item # rest)]"
      unfolding upt_head using idx flt True by simp
    have beyond: "?n < callIndex c" if "c \<in> set new" for c
    proof -
      from that have "callIndex c \<in> set (map callIndex new)" by simp
      with idx show ?thesis by (simp del: upt_Suc)
    qed
    have each': "callName c = name ((visited @ item # rest) ! callIndex c)
         \<and> callContext c =
             \<lparr> rawText = raw,
               allItems = map toPublic (take (callIndex c) final
                                        @ drop (callIndex c) (visited @ item # rest)) \<rparr>
         \<and> final ! callIndex c
             = applyOutcome (callOutcome c) ((visited @ item # rest) ! callIndex c)"
      if c: "c \<in> set (?call # new)" for c
    proof (cases "c = ?call")
      case True
      with here before show ?thesis by simp
    next
      case False
      with c have cn: "c \<in> set new" by simp
      from beyond [OF cn] have
        "(visited @ ?item' # rest) ! callIndex c = (visited @ item # rest) ! callIndex c"
        "drop (callIndex c) (visited @ ?item' # rest) = drop (callIndex c) (visited @ item # rest)"
        by (rule nth_beyond, rule drop_beyond)
      with each cn show ?thesis by simp
    qed
    have same': "\<forall>i. ?n \<le> i \<and> i < ?n + length (item # rest)
              \<and> \<not> needsVerification ((visited @ item # rest) ! i) \<longrightarrow>
            final ! i = (visited @ item # rest) ! i"
    proof (intro allI impI)
      fix i assume i: "?n \<le> i \<and> i < ?n + length (item # rest)
              \<and> \<not> needsVerification ((visited @ item # rest) ! i)"
      with True have "i \<noteq> ?n" by auto
      with i have gt: "?n < i" by simp
      from nth_beyond [OF gt, of ?item' rest item] i gt same
      show "final ! i = (visited @ item # rest) ! i" by simp
    qed
    from new have "calls' = calls @ (?call # new)" by simp
    with idx' each' same' show ?thesis by blast
  qed
qed


text \<open>The invocations recorded are the run of the callback, outcome by outcome.\<close>

lemma callbackLoop_replay:
  "callbackLoop cb raw visited todo s calls = (final, s', calls') \<Longrightarrow>
   \<exists>new. calls' = calls @ new \<and> replayCalls cb s new = Some s'"
proof (induction todo arbitrary: visited s calls)
  case Nil
  then show ?case by simp
next
  case (Cons item rest)
  show ?case
  proof (cases "needsVerification item")
    case False
    with Cons.prems have "callbackLoop cb raw (visited @ [item]) rest s calls = (final, s', calls')"
      by simp
    from Cons.IH [OF this] show ?thesis .
  next
    case True
    let ?ctx = "\<lparr> rawText = raw, allItems = map toPublic (visited @ item # rest) \<rparr>"
    obtain outcome s1 where cb: "cb (name item) ?ctx s = (outcome, s1)"
      by (cases "cb (name item) ?ctx s")
    let ?call = "\<lparr> callIndex = length visited, callName = name item, callContext = ?ctx,
                   callOutcome = outcome \<rparr>"
    from True cb Cons.prems
    have "callbackLoop cb raw (visited @ [applyOutcome outcome item]) rest s1 (calls @ [?call])
                 = (final, s', calls')"
      by simp
    from Cons.IH [OF this] obtain new where
      "calls' = (calls @ [?call]) @ new" "replayCalls cb s1 new = Some s'" by blast
    with cb have "calls' = calls @ (?call # new) \<and> replayCalls cb s (?call # new) = Some s'"
      by simp
    then show ?thesis by blast
  qed
qed


lemma autoVerifyPass_length: "length (autoVerifyPass batch options its) = length its"
  by (simp add: autoVerifyPass_def Let_def split: sum.splits)

lemma autoVerifyPass_unflagged:
  "i < length its \<Longrightarrow> \<not> needsVerification (its ! i) \<Longrightarrow>
   autoVerifyPass batch options its ! i = its ! i"
  by (simp add: autoVerifyPass_def Let_def applyVerification_def split: sum.splits)

lemma autoVerifyPass_failed:
  "batch (filter needsVerification its) = Inl e \<Longrightarrow> autoVerifyPass batch options its = its"
  by (simp add: autoVerifyPass_def Let_def)

lemma autoVerifyPass_resolved:
  assumes "i < length its" and "needsVerification (its ! i)" and "autoVerifyNotFalse options"
    and "batch (filter needsVerification its) = Inr m"
    and "m (name (its ! i)) = Some v" and "v \<noteq> []"
  shows "autoVerifyPass batch options its ! i = (its ! i)\<lparr>name := v, needsVerification := False\<rparr>"
proof -
  from assms(1,2) have "its ! i \<in> set its \<and> needsVerification (its ! i)" by simp
  then have "filter needsVerification its \<noteq> []" by (auto simp: filter_empty_conv)
  with assms show ?thesis
    by (simp add: autoVerifyPass_def Let_def applyVerification_def)
qed

text \<open>An item that is still flagged after the batch pass was flagged before and is unchanged.\<close>

lemma autoVerifyPass_still_flagged:
  assumes "i < length its" and "needsVerification (autoVerifyPass batch options its ! i)"
  shows "needsVerification (its ! i) \<and> autoVerifyPass batch options its ! i = its ! i"
  using assms
  by (auto simp: autoVerifyPass_def Let_def applyVerification_def
      split: sum.splits if_splits option.splits)

lemma callbackPass_none:
  "optionsVerifyCallback options = None \<Longrightarrow> callbackPass options raw its s = (its, s, [])"
  by (simp add: callbackPass_def)

text \<open>The callback pass from the start of the array.\<close>

lemma callbackPass_calls:
  assumes "optionsVerifyCallback options = Some cb"
    and "callbackPass options raw its s = (final, s', calls)"
  shows "length final = length its"
    and "map callIndex calls = filter (\<lambda>i. needsVerification (its ! i)) [0..<length its]"
    and "\<forall>c \<in> set calls.
           callName c = name (its ! callIndex c)
         \<and> callContext c =
             \<lparr> rawText = raw,
               allItems = map toPublic (take (callIndex c) final @ drop (callIndex c) its) \<rparr>
         \<and> final ! callIndex c = applyOutcome (callOutcome c) (its ! callIndex c)"
    and "\<forall>i<length its. \<not> needsVerification (its ! i) \<longrightarrow> final ! i = its ! i"
    and "replayCalls cb s calls = Some s'"
proof -
  from assms have run: "callbackLoop cb raw [] its s [] = (final, s', calls)"
    by (simp add: callbackPass_def)
  from callbackLoop_shape [OF run] show "length final = length its" by simp
  from callbackLoop_replay [OF run] show "replayCalls cb s calls = Some s'" by simp
  from callbackLoop_calls [OF run]
  show "map callIndex calls = filter (\<lambda>i. needsVerification (its ! i)) [0..<length its]"
    and "\<forall>c \<in> set calls.
           callName c = name (its ! callIndex c)
         \<and> callContext c =
             \<lparr> rawText = raw,
               allItems = map toPublic (take (callIndex c) final @ drop (callIndex c) its) \<rparr>
         \<and> final ! callIndex c = applyOutcome (callOutcome c) (its ! callIndex c)"
    and "\<forall>i<length its. \<not> needsVerification (its ! i) \<longrightarrow> final ! i = its ! i"
    by simp_all
qed

text \<open>With or without a callback: only flagged items are offered, the others are kept.\<close>

lemma callbackPass_frame:
  assumes "callbackPass options raw its s = (final, s', calls)"
  shows "length final = length its"
    and "\<forall>c \<in> set calls. callIndex c < length its \<and> needsVerification (its ! callIndex c)"
    and "\<forall>i<length its. \<not> needsVerification (its ! i) \<longrightarrow> final ! i = its ! i"
proof -
  show "length final = length its"
    and "\<forall>c \<in> set calls. callIndex c < length its \<and> needsVerification (its ! callIndex c)"
    and "\<forall>i<length its. \<not> needsVerification (its ! i) \<longrightarrow> final ! i = its ! i"
  proof (atomize (full), cases "optionsVerifyCallback options")
    case None
    with assms callbackPass_none [OF None, of raw its s] show
      "length final = length its
       \<and> (\<forall>c \<in> set calls. callIndex c < length its \<and> needsVerification (its ! callIndex c))
       \<and> (\<forall>i<length its. \<not> needsVerification (its ! i) \<longrightarrow> final ! i = its ! i)"
      by simp
  next
    case (Some cb)
    note c = callbackPass_calls [OF Some assms]
    have "callIndex x < length its \<and> needsVerification (its ! callIndex x)"
      if "x \<in> set calls" for x
    proof -
      from that have "callIndex x \<in> set (map callIndex calls)" by simp
      then show ?thesis unfolding c(2) by simp
    qed
    with c(1,4) show
      "length final = length its
       \<and> (\<forall>c \<in> set calls. callIndex c < length its \<and> needsVerification (its ! callIndex c))
       \<and> (\<forall>i<length its. \<not> needsVerification (its ! i) \<longrightarrow> final ! i = its ! i)"
      by blast
  qed
qed

lemma extractReceiptItems_parsed:
  assumes "geminiResponse = Inr responseText"
    and "parseResponse JSON_parse responseText = Inr parsed"
    and "callbackPass options responseText
           (autoVerifyPass batch options (parsedItems parsed)) s = (final, s', calls)"
  shows "extractReceiptItems JSON_parse geminiResponse batch options s =
           \<lparr> returned = Inr \<lparr> items = map toPublic final, total_amt = parsedTotal parsed \<rparr>,
             callbackState = s', callbackCalls = calls \<rparr>"
  using assms by (simp add: extractReceiptItems_def)

lemma extractReceiptItems_failed:
  "geminiResponse = Inr responseText \<Longrightarrow> parseResponse JSON_parse responseText = Inl e \<Longrightarrow>
   extractReceiptItems JSON_parse geminiResponse batch options s =
     \<lparr> returned = Inl e, callbackState = s, callbackCalls = [] \<rparr>"
  "geminiResponse = Inl e \<Longrightarrow>
   extractReceiptItems JSON_parse geminiResponse batch options s =
     \<lparr> returned = Inl e, callbackState = s, callbackCalls = [] \<rparr>"
  by (simp_all add: extractReceiptItems_def)

lemma extractReceiptItems_returned:
  assumes "returned (extractReceiptItems JSON_parse geminiResponse batch options s) = Inr r"
  shows "\<exists>responseText parsed. geminiResponse = Inr responseText
           \<and> parseResponse JSON_parse responseText = Inr parsed
           \<and> total_amt r = parsedTotal parsed"
proof (cases geminiResponse)
  case (Inl e)
  with assms show ?thesis by (simp add: extractReceiptItems_def)
next
  case (Inr responseText)
  show ?thesis
  proof (cases "parseResponse JSON_parse responseText")
    case (Inl e)
    with Inr assms show ?thesis by (simp add: extractReceiptItems_def)
  next
    case parsed: (Inr parsed)
    obtain final s' calls where
      "callbackPass options responseText
           (autoVerifyPass batch options (parsedItems parsed)) s = (final, s', calls)"
      by (cases "callbackPass options responseText
           (autoVerifyPass batch options (parsedItems parsed)) s")
    from extractReceiptItems_parsed [OF Inr parsed this] assms Inr parsed
    show ?thesis by auto
  qed
qed

lemma parseResponse_Inr:
  assumes "parseResponse JSON_parse responseText = Inr p"
  shows "\<exists>parsed. JSON_parse (extractJson responseText) = Inr parsed
           \<and> parsePayload parsed = Inr p"
  using assms by (auto simp: parseResponse_def split: sum.splits)


text \<open>The example response and two runs on it, evaluated.\<close>

lemma exThree_parsed:
  "parseResponse exThreeParse exThreeText = Inr \<lparr> parsedItems = exThreeItems, parsedTotal = 99 \<rparr>"
proof -
  have "extractJson exThreeText = exThreeText"
    by (simp add: exThreeText_def extractJson_def trim_def codeBlockMatch_def fence_def
        isSpace_def)
  then have "exThreeParse (extractJson exThreeText) = Inr exThreePayload"
    by (simp add: exThreeParse_def)
  moreover have "parsePayload exThreePayload
      = Inr \<lparr> parsedItems = exThreeItems, parsedTotal = 99 \<rparr>"
    by (simp add: parsePayload_def exThreePayload_def normalizeRawItem_def
        mergeAttachments_def isAttachmentRecord_def cleanItem_def asInternal_def
        exThreeItems_def exItem_def)
  ultimately show ?thesis by (simp add: parseResponse_def)
qed

lemma exThree_callbackPass:
  "callbackPass exOptions exThreeText exThreeItems 0 =
     ([exItem ''ORG MLK'' (25 / 2) 1 True, exItem ''Fuji Apples'' (9 / 2) 3 False,
       exItem ''ORG BRD'' 8 1 True, exItem ''Bananas'' 2 1 False],
      3,
      [\<lparr> callIndex = 0, callName = ''ORG MLK'',
         callContext = \<lparr> rawText = exThreeText, allItems = map toPublic exThreeItems \<rparr>,
         callOutcome = Inr None \<rparr>,
       \<lparr> callIndex = 1, callName = ''KS APL'',
         callContext = \<lparr> rawText = exThreeText, allItems = map toPublic exThreeItems \<rparr>,
         callOutcome = Inr (Some \<lparr> verifiedName = ''Fuji Apples'' \<rparr>) \<rparr>,
       \<lparr> callIndex = 2, callName = ''ORG BRD'',
         callContext = \<lparr> rawText = exThreeText,
           allItems = map toPublic
             [exItem ''ORG MLK'' (25 / 2) 1 True, exItem ''Fuji Apples'' (9 / 2) 3 False,
              exItem ''ORG BRD'' 8 1 True, exItem ''Bananas'' 2 1 False] \<rparr>,
         callOutcome = Inl ''lookup failed'' \<rparr>])"
  by (simp add: callbackPass_def exOptions_def exThreeItems_def exItem_def exCallback_def
      numeral_3_eq_3)

lemma exThree_batch_resolves:
  "autoVerifyPass exBatchResolves exOptions exThreeItems =
     [exItem ''Organic Milk 1L'' (25 / 2) 1 False, exItem ''KS APL'' (9 / 2) 3 True,
      exItem ''ORG BRD'' 8 1 True, exItem ''Bananas'' 2 1 False]"
  by (simp add: autoVerifyPass_def exBatchResolves_def exOptions_def exThreeItems_def
      exItem_def applyVerification_def)

lemma exThree_callbackPass_after_batch:
  "callbackPass exOptions exThreeText
     [exItem ''Organic Milk 1L'' (25 / 2) 1 False, exItem ''KS APL'' (9 / 2) 3 True,
      exItem ''ORG BRD'' 8 1 True, exItem ''Bananas'' 2 1 False] 0 =
     ([exItem ''Organic Milk 1L'' (25 / 2) 1 False, exItem ''Fuji Apples'' (9 / 2) 3 False,
       exItem ''ORG BRD'' 8 1 True, exItem ''Bananas'' 2 1 False],
      2,
      [\<lparr> callIndex = 1, callName = ''KS APL'',
         callContext = \<lparr> rawText = exThreeText,
           allItems = map toPublic
             [exItem ''Organic Milk 1L'' (25 / 2) 1 False, exItem ''KS APL'' (9 / 2) 3 True,
              exItem ''ORG BRD'' 8 1 True, exItem ''Bananas'' 2 1 False] \<rparr>,
         callOutcome = Inr (Some \<lparr> verifiedName = ''Fuji Apples'' \<rparr>) \<rparr>,
       \<lparr> callIndex = 2, callName = ''ORG BRD'',
         callContext = \<lparr> rawText = exThreeText,
           allItems = map toPublic
             [exItem ''Organic Milk 1L'' (25 / 2) 1 False, exItem ''Fuji Apples'' (9 / 2) 3 False,
              exItem ''ORG BRD'' 8 1 True, exItem ''Bananas'' 2 1 False] \<rparr>,
         callOutcome = Inl ''lookup failed'' \<rparr>])"
  by (simp add: callbackPass_def exOptions_def exItem_def exCallback_def numeral_2_eq_2)

text \<open>
  Claim C1. When extractReceiptItems returns, the total returned is the number in the
  \<open>total\<close> field of the payload that \<^verbatim>\<open>JSON.parse\<close> gave for the oracle's response; it is the
  total parseResponse returned, whatever the batch verifier and the callback are and
  whatever they do, and nothing is computed from the items.
\<close>

theorem C1_total_passed_through:
  "(returned (extractReceiptItems JSON_parse geminiResponse batch options s) = Inr r \<longrightarrow>
      (\<exists>responseText parsed. geminiResponse = Inr responseText
         \<and> JSON_parse (extractJson responseText) = Inr parsed
         \<and> getProp parsed ''total'' = Some (JNum (total_amt r))))
   \<and> (returned (extractReceiptItems JSON_parse geminiResponse batch options s) = Inr r
       \<and> returned (extractReceiptItems JSON_parse geminiResponse batch' options' s') = Inr r' \<longrightarrow>
        total_amt r' = total_amt r)
   \<and> (geminiResponse = Inr responseText \<and> parseResponse JSON_parse responseText = Inr p \<longrightarrow>
        (\<exists>r. returned (extractReceiptItems JSON_parse geminiResponse batch options s) = Inr r
           \<and> total_amt r = parsedTotal p))"
proof -
  have a: "\<exists>responseText parsed. geminiResponse = Inr responseText
         \<and> JSON_parse (extractJson responseText) = Inr parsed
         \<and> getProp parsed ''total'' = Some (JNum (total_amt r))"
    if "returned (extractReceiptItems JSON_parse geminiResponse batch options s) = Inr r"
  proof -
    from extractReceiptItems_returned [OF that] obtain responseText p where
      g: "geminiResponse = Inr responseText" and
      p: "parseResponse JSON_parse responseText = Inr p" and
      t: "total_amt r = parsedTotal p" by blast
    from parseResponse_Inr [OF p] obtain parsed where
      j: "JSON_parse (extractJson responseText) = Inr parsed" and
      q: "parsePayload parsed = Inr p" by blast
    from parsePayload_Inr [OF q] t have "getProp parsed ''total'' = Some (JNum (total_amt r))"
      by auto
    with g j show ?thesis by blast
  qed
  have b: "total_amt r' = total_amt r"
    if "returned (extractReceiptItems JSON_parse geminiResponse batch options s) = Inr r"
      and "returned (extractReceiptItems JSON_parse geminiResponse batch' options' s') = Inr r'"
    using extractReceiptItems_returned [OF that(1)] extractReceiptItems_returned [OF that(2)]
    by auto
  have c: "\<exists>r. returned (extractReceiptItems JSON_parse geminiResponse batch options s) = Inr r
           \<and> total_amt r = parsedTotal p"
    if g: "geminiResponse = Inr responseText"
      and p: "parseResponse JSON_parse responseText = Inr p"
  proof -
    obtain final s' calls where
      "callbackPass options responseText
           (autoVerifyPass batch options (parsedItems p)) s = (final, s', calls)"
      by (cases "callbackPass options responseText
           (autoVerifyPass batch options (parsedItems p)) s")
    from extractReceiptItems_parsed [OF g p this] show ?thesis by simp
  qed
  from a b c show ?thesis by blast
qed

theorem C1_total_passed_through_witness:
  "returned (extractReceiptItems exThreeParse (Inr exThreeText) exBatchFails exOptions 0) =
     Inr \<lparr> items = map toPublic
             [exItem ''ORG MLK'' (25 / 2) 1 True, exItem ''Fuji Apples'' (9 / 2) 3 False,
              exItem ''ORG BRD'' 8 1 True, exItem ''Bananas'' 2 1 False],
           total_amt = 99 \<rparr>
   \<and> returned (extractReceiptItems exThreeParse (Inr exThreeText) exBatchResolves exOptions 0) =
     Inr \<lparr> items = map toPublic
             [exItem ''Organic Milk 1L'' (25 / 2) 1 False, exItem ''Fuji Apples'' (9 / 2) 3 False,
              exItem ''ORG BRD'' 8 1 True, exItem ''Bananas'' 2 1 False],
           total_amt = 99 \<rparr>
   \<and> getProp exThreePayload ''total'' = Some (JNum 99)"
proof -
  have f: "autoVerifyPass exBatchFails exOptions exThreeItems = exThreeItems"
    by (rule autoVerifyPass_failed) (simp add: exBatchFails_def)
  have r1: "returned (extractReceiptItems exThreeParse (Inr exThreeText) exBatchFails exOptions 0) =
     Inr \<lparr> items = map toPublic
             [exItem ''ORG MLK'' (25 / 2) 1 True, exItem ''Fuji Apples'' (9 / 2) 3 False,
              exItem ''ORG BRD'' 8 1 True, exItem ''Bananas'' 2 1 False],
           total_amt = 99 \<rparr>"
    by (simp add: extractReceiptItems_def exThree_parsed f exThree_callbackPass)
  have r2: "returned (extractReceiptItems exThreeParse (Inr exThreeText) exBatchResolves exOptions 0) =
     Inr \<lparr> items = map toPublic
             [exItem ''Organic Milk 1L'' (25 / 2) 1 False, exItem ''Fuji Apples'' (9 / 2) 3 False,
              exItem ''ORG BRD'' 8 1 True, exItem ''Bananas'' 2 1 False],
           total_amt = 99 \<rparr>"
    by (simp add: extractReceiptItems_def exThree_parsed exThree_batch_resolves
        exThree_callbackPass_after_batch)
  have t: "getProp exThreePayload ''total'' = Some (JNum 99)"
    by (simp add: exThreePayload_def)
  show ?thesis
    using r1 r2 t
      C1_total_passed_through [of exThreeParse "Inr exThreeText" exBatchFails exOptions 0
        "\<lparr> items = map toPublic
             [exItem ''ORG MLK'' (25 / 2) 1 True, exItem ''Fuji Apples'' (9 / 2) 3 False,
              exItem ''ORG BRD'' 8 1 True, exItem ''Bananas'' 2 1 False],
           total_amt = 99 \<rparr>" exBatchResolves exOptions 0
        "\<lparr> items = map toPublic
             [exItem ''Organic Milk 1L'' (25 / 2) 1 False, exItem ''Fuji Apples'' (9 / 2) 3 False,
              exItem ''ORG BRD'' 8 1 True, exItem ''Bananas'' 2 1 False],
           total_amt = 99 \<rparr>" exThreeText "\<lparr> parsedItems = exThreeItems, parsedTotal = 99 \<rparr>"]
    by simp
qed


text \<open>
  Claim C4. In a call that gets past parsing, the callback is invoked for flagged items
  only. An item that is not flagged is left as it is by the batch pass, is not offered to
  the callback, and is returned as parsed. A flagged item for whose name the batch
  verifier's map has a non-empty name gets that name and loses its flag in the batch pass,
  and the callback is not invoked for it.
\<close>

theorem C4_batch_then_callback:
  fixes options :: "'s ExtractOptions option"
  assumes gem: "geminiResponse = Inr responseText"
    and parsed: "parseResponse JSON_parse responseText = Inr parsed"
    and i: "i < length (parsedItems parsed)"
  shows "(\<forall>c \<in> set (callbackCalls (extractReceiptItems JSON_parse geminiResponse batch options s)).
            callIndex c < length (parsedItems parsed)
          \<and> needsVerification (parsedItems parsed ! callIndex c))
       \<and> (\<not> needsVerification (parsedItems parsed ! i) \<longrightarrow>
            autoVerifyPass batch options (parsedItems parsed) ! i = parsedItems parsed ! i
          \<and> i \<notin> callIndex `
                set (callbackCalls (extractReceiptItems JSON_parse geminiResponse batch options s))
          \<and> (\<exists>r. returned (extractReceiptItems JSON_parse geminiResponse batch options s) = Inr r
                \<and> items r ! i = toPublic (parsedItems parsed ! i)))
       \<and> (needsVerification (parsedItems parsed ! i) \<and> autoVerifyNotFalse options
          \<and> batch (filter needsVerification (parsedItems parsed)) = Inr m
          \<and> m (name (parsedItems parsed ! i)) = Some v \<and> v \<noteq> [] \<longrightarrow>
            autoVerifyPass batch options (parsedItems parsed) ! i
              = (parsedItems parsed ! i)\<lparr>name := v, needsVerification := False\<rparr>
          \<and> i \<notin> callIndex `
                set (callbackCalls (extractReceiptItems JSON_parse geminiResponse batch options s))
          \<and> (\<exists>r. returned (extractReceiptItems JSON_parse geminiResponse batch options s) = Inr r
                \<and> items r ! i = toPublic ((parsedItems parsed ! i)\<lparr>name := v\<rparr>)))"
proof -
  let ?its = "parsedItems parsed"
  let ?its1 = "autoVerifyPass batch options ?its"
  obtain final s' calls where pass: "callbackPass options responseText ?its1 s = (final, s', calls)"
    by (cases "callbackPass options responseText ?its1 s")
  note run = extractReceiptItems_parsed [OF gem parsed pass]
  note frame = callbackPass_frame [OF pass]
  have len1: "length ?its1 = length ?its" by (rule autoVerifyPass_length)
  have only: "\<forall>c \<in> set calls. callIndex c < length ?its \<and> needsVerification (?its ! callIndex c)"
  proof
    fix c assume "c \<in> set calls"
    with frame(2) len1 have c: "callIndex c < length ?its" "needsVerification (?its1 ! callIndex c)"
      by auto
    with autoVerifyPass_still_flagged [OF c] show
      "callIndex c < length ?its \<and> needsVerification (?its ! callIndex c)" by simp
  qed
  have skipped: "i \<notin> callIndex ` set calls \<and> final ! i = ?its1 ! i"
    if "\<not> needsVerification (?its1 ! i)"
    using that frame(2,3) i len1 by auto
  have unflagged: "?its1 ! i = ?its ! i \<and> i \<notin> callIndex ` set calls
      \<and> items \<lparr> items = map toPublic final, total_amt = parsedTotal parsed \<rparr> ! i
          = toPublic (?its ! i)"
    if nf: "\<not> needsVerification (?its ! i)"
  proof -
    from autoVerifyPass_unflagged [OF i nf] have same: "?its1 ! i = ?its ! i" .
    with nf skipped have "i \<notin> callIndex ` set calls" "final ! i = ?its ! i" by simp_all
    with same i frame(1) len1 show ?thesis by simp
  qed
  have resolved: "?its1 ! i = (?its ! i)\<lparr>name := v, needsVerification := False\<rparr>
      \<and> i \<notin> callIndex ` set calls
      \<and> items \<lparr> items = map toPublic final, total_amt = parsedTotal parsed \<rparr> ! i
          = toPublic ((?its ! i)\<lparr>name := v\<rparr>)"
    if "needsVerification (?its ! i)" "autoVerifyNotFalse options"
      "batch (filter needsVerification ?its) = Inr m" "m (name (?its ! i)) = Some v" "v \<noteq> []"
  proof -
    from autoVerifyPass_resolved [of i ?its options batch m v, OF i that]
    have r: "?its1 ! i = (?its ! i)\<lparr>name := v, needsVerification := False\<rparr>" .
    then have "\<not> needsVerification (?its1 ! i)" by simp
    from skipped [OF this] r have "i \<notin> callIndex ` set calls"
      "final ! i = (?its ! i)\<lparr>name := v, needsVerification := False\<rparr>" by simp_all
    with r i frame(1) len1 show ?thesis by (simp add: toPublic_def)
  qed
  from only unflagged resolved show ?thesis unfolding run by simp
qed

theorem C4_batch_then_callback_witness:
  "parseResponse exThreeParse exThreeText = Inr \<lparr> parsedItems = exThreeItems, parsedTotal = 99 \<rparr>
   \<and> autoVerifyNotFalse exOptions
   \<and> optionsVerifyCallback exOptions = Some exCallback
   \<and> map needsVerification exThreeItems = [True, True, True, False]
   \<and> exBatchResolves (filter needsVerification exThreeItems)
       = Inr [''ORG MLK'' \<mapsto> ''Organic Milk 1L'']
   \<and> map callIndex (callbackCalls
        (extractReceiptItems exThreeParse (Inr exThreeText) exBatchResolves exOptions 0)) = [1, 2]
   \<and> 0 \<notin> callIndex ` set (callbackCalls
        (extractReceiptItems exThreeParse (Inr exThreeText) exBatchResolves exOptions 0))
   \<and> 3 \<notin> callIndex ` set (callbackCalls
        (extractReceiptItems exThreeParse (Inr exThreeText) exBatchResolves exOptions 0))
   \<and> autoVerifyPass exBatchResolves exOptions exThreeItems ! 0
       = exItem ''Organic Milk 1L'' (25 / 2) 1 False"
proof -
  note p = exThree_parsed
  have len: "0 < length (parsedItems \<lparr> parsedItems = exThreeItems, parsedTotal = 99 \<rparr>)"
    "3 < length (parsedItems \<lparr> parsedItems = exThreeItems, parsedTotal = 99 \<rparr>)"
    by (simp_all add: exThreeItems_def)
  have o: "autoVerifyNotFalse exOptions" "optionsVerifyCallback exOptions = Some exCallback"
    by (simp_all add: exOptions_def)
  have nv: "map needsVerification exThreeItems = [True, True, True, False]"
    by (simp add: exThreeItems_def exItem_def)
  have b: "exBatchResolves (filter needsVerification exThreeItems)
       = Inr [''ORG MLK'' \<mapsto> ''Organic Milk 1L'']"
    by (simp add: exBatchResolves_def)
  have calls: "map callIndex (callbackCalls
        (extractReceiptItems exThreeParse (Inr exThreeText) exBatchResolves exOptions 0)) = [1, 2]"
    by (simp add: extractReceiptItems_def exThree_parsed exThree_batch_resolves
        exThree_callbackPass_after_batch)
  have flags: "needsVerification (exThreeItems ! 0)" "\<not> needsVerification (exThreeItems ! 3)"
    "name (exThreeItems ! 0) = ''ORG MLK''"
    by (simp_all add: exThreeItems_def exItem_def)
  have upd: "(exThreeItems ! 0)\<lparr>name := ''Organic Milk 1L'', needsVerification := False\<rparr>
      = exItem ''Organic Milk 1L'' (25 / 2) 1 False"
    by (simp add: exThreeItems_def exItem_def)
  from C4_batch_then_callback [OF refl p len(1), where batch = exBatchResolves
      and options = exOptions and m = "[''ORG MLK'' \<mapsto> ''Organic Milk 1L'']"
      and v = "''Organic Milk 1L''" and s = 0]
    o b flags upd
  have zero: "0 \<notin> callIndex ` set (callbackCalls
        (extractReceiptItems exThreeParse (Inr exThreeText) exBatchResolves exOptions 0))"
    "autoVerifyPass exBatchResolves exOptions exThreeItems ! 0
       = exItem ''Organic Milk 1L'' (25 / 2) 1 False"
    by simp_all
  from C4_batch_then_callback [OF refl p len(2), where batch = exBatchResolves
      and options = exOptions and m = "[''ORG MLK'' \<mapsto> ''Organic Milk 1L'']"
      and v = "''Organic Milk 1L''" and s = 0]
    flags
  have three: "3 \<notin> callIndex ` set (callbackCalls
        (extractReceiptItems exThreeParse (Inr exThreeText) exBatchResolves exOptions 0))"
    by simp
  from p o nv b calls zero three show ?thesis by simp
qed

text \<open>
  Claim C5. When a callback is configured, it is invoked once for each flagged item, in
  the order of the array, with the item's name and a context that holds the raw response
  and the public shape of all items as they are at that moment: the items before the one
  being verified in their final state, with the names earlier invocations gave them, and
  the others as they came into the pass. After the invocation the item has the name the
  callback returned and no flag if the callback returned a result with a non-empty
  verifiedName, and is unchanged in every other case. The invocations recorded are the run
  of the callback from its initial state.
\<close>

theorem C5_callback_sequencing:
  assumes cb: "optionsVerifyCallback options = Some cb"
    and pass: "callbackPass options responseText its s = (final, s', calls)"
  shows "length final = length its
       \<and> map callIndex calls = filter (\<lambda>i. needsVerification (its ! i)) [0..<length its]
       \<and> (\<forall>c \<in> set calls.
             callName c = name (its ! callIndex c)
           \<and> callContext c =
               \<lparr> rawText = responseText,
                 allItems = map toPublic (take (callIndex c) final @ drop (callIndex c) its) \<rparr>
           \<and> (\<forall>r. callOutcome c = Inr (Some r) \<and> verifiedName r \<noteq> [] \<longrightarrow>
                 final ! callIndex c
                   = (its ! callIndex c)\<lparr>name := verifiedName r, needsVerification := False\<rparr>)
           \<and> (\<not> (\<exists>r. callOutcome c = Inr (Some r) \<and> verifiedName r \<noteq> []) \<longrightarrow>
                 final ! callIndex c = its ! callIndex c))
       \<and> (\<forall>i<length its. \<not> needsVerification (its ! i) \<longrightarrow> final ! i = its ! i)
       \<and> replayCalls cb s calls = Some s'"
proof -
  note c = callbackPass_calls [OF cb pass]
  have "callName x = name (its ! callIndex x)
           \<and> callContext x =
               \<lparr> rawText = responseText,
                 allItems = map toPublic (take (callIndex x) final @ drop (callIndex x) its) \<rparr>
           \<and> (\<forall>r. callOutcome x = Inr (Some r) \<and> verifiedName r \<noteq> [] \<longrightarrow>
                 final ! callIndex x
                   = (its ! callIndex x)\<lparr>name := verifiedName r, needsVerification := False\<rparr>)
           \<and> (\<not> (\<exists>r. callOutcome x = Inr (Some r) \<and> verifiedName r \<noteq> []) \<longrightarrow>
                 final ! callIndex x = its ! callIndex x)"
    if x: "x \<in> set calls" for x
  proof -
    from c(3) x have n: "callName x = name (its ! callIndex x)"
      and k: "callContext x =
               \<lparr> rawText = responseText,
                 allItems = map toPublic (take (callIndex x) final @ drop (callIndex x) its) \<rparr>"
      and f: "final ! callIndex x = applyOutcome (callOutcome x) (its ! callIndex x)"
      by blast+
    have "\<forall>r. callOutcome x = Inr (Some r) \<and> verifiedName r \<noteq> [] \<longrightarrow>
                 final ! callIndex x
                   = (its ! callIndex x)\<lparr>name := verifiedName r, needsVerification := False\<rparr>"
      using f by (auto simp: applyOutcome_resolved)
    moreover have "\<not> (\<exists>r. callOutcome x = Inr (Some r) \<and> verifiedName r \<noteq> []) \<longrightarrow>
                 final ! callIndex x = its ! callIndex x"
      using f applyOutcome_unresolved [of "callOutcome x" "its ! callIndex x"] by auto
    ultimately show ?thesis using n k by blast
  qed
  with c(1,2,4,5) show ?thesis by blast
qed

theorem C5_callback_sequencing_witness:
  "optionsVerifyCallback exOptions = Some exCallback
   \<and> fst (callbackPass exOptions exThreeText exThreeItems 0) =
       [exItem ''ORG MLK'' (25 / 2) 1 True, exItem ''Fuji Apples'' (9 / 2) 3 False,
        exItem ''ORG BRD'' 8 1 True, exItem ''Bananas'' 2 1 False]
   \<and> map callIndex (snd (snd (callbackPass exOptions exThreeText exThreeItems 0))) = [0, 1, 2]
   \<and> map callName (snd (snd (callbackPass exOptions exThreeText exThreeItems 0)))
       = [''ORG MLK'', ''KS APL'', ''ORG BRD'']
   \<and> map (\<lambda>c. map name (allItems (callContext c)))
        (snd (snd (callbackPass exOptions exThreeText exThreeItems 0)))
       = [[''ORG MLK'', ''KS APL'', ''ORG BRD'', ''Bananas''],
          [''ORG MLK'', ''KS APL'', ''ORG BRD'', ''Bananas''],
          [''ORG MLK'', ''Fuji Apples'', ''ORG BRD'', ''Bananas'']]
   \<and> filter (\<lambda>i. needsVerification (exThreeItems ! i)) [0..<length exThreeItems] = [0, 1, 2]"
proof -
  have o: "optionsVerifyCallback exOptions = Some exCallback"
    by (simp add: exOptions_def)
  note run = exThree_callbackPass
  have ev: "fst (callbackPass exOptions exThreeText exThreeItems 0) =
       [exItem ''ORG MLK'' (25 / 2) 1 True, exItem ''Fuji Apples'' (9 / 2) 3 False,
        exItem ''ORG BRD'' 8 1 True, exItem ''Bananas'' 2 1 False]"
    "map callName (snd (snd (callbackPass exOptions exThreeText exThreeItems 0)))
       = [''ORG MLK'', ''KS APL'', ''ORG BRD'']"
    "map (\<lambda>c. map name (allItems (callContext c)))
        (snd (snd (callbackPass exOptions exThreeText exThreeItems 0)))
       = [[''ORG MLK'', ''KS APL'', ''ORG BRD'', ''Bananas''],
          [''ORG MLK'', ''KS APL'', ''ORG BRD'', ''Bananas''],
          [''ORG MLK'', ''Fuji Apples'', ''ORG BRD'', ''Bananas'']]"
    unfolding run by (simp_all add: exThreeItems_def exItem_def toPublic_def)
  have idx: "map callIndex (snd (snd (callbackPass exOptions exThreeText exThreeItems 0))) = [0, 1, 2]"
    unfolding run by simp
  from C5_callback_sequencing [OF o run] idx
  have flt: "filter (\<lambda>i. needsVerification (exThreeItems ! i)) [0..<length exThreeItems] = [0, 1, 2]"
    unfolding run by simp
  from o ev idx flt show ?thesis by simp
qed

text \<open>
  Claim C7. Once the response has been parsed, extractReceiptItems returns a result with
  one item for each parsed item, whatever the batch verifier and the callback do. If the
  batch verifier fails, the batch pass leaves every item as it was. If the callback fails
  for an item, that item is left as it was, and the callback is still invoked for every
  flagged item of the array. A failure of parseResponse, or of the oracle call, is what
  extractReceiptItems throws.
\<close>

theorem C7_verification_failures_not_fatal:
  fixes options :: "'s ExtractOptions option"
  shows "(geminiResponse = Inr responseText \<and> parseResponse JSON_parse responseText = Inr parsed \<longrightarrow>
            (\<exists>r. returned (extractReceiptItems JSON_parse geminiResponse batch options s) = Inr r
               \<and> length (items r) = length (parsedItems parsed)
               \<and> total_amt r = parsedTotal parsed))
       \<and> (batch (filter needsVerification its) = Inl e \<longrightarrow>
            autoVerifyPass batch options its = its)
       \<and> (optionsVerifyCallback options = Some cb
          \<and> callbackPass options responseText its s = (final, s', calls) \<longrightarrow>
            map callIndex calls = filter (\<lambda>i. needsVerification (its ! i)) [0..<length its]
          \<and> (\<forall>c \<in> set calls. isl (callOutcome c) \<longrightarrow> final ! callIndex c = its ! callIndex c))
       \<and> (geminiResponse = Inr responseText \<and> parseResponse JSON_parse responseText = Inl e \<longrightarrow>
            returned (extractReceiptItems JSON_parse geminiResponse batch options s) = Inl e)
       \<and> (geminiResponse = Inl e \<longrightarrow>
            returned (extractReceiptItems JSON_parse geminiResponse batch options s) = Inl e)"
proof -
  have a: "\<exists>r. returned (extractReceiptItems JSON_parse geminiResponse batch options s) = Inr r
               \<and> length (items r) = length (parsedItems parsed)
               \<and> total_amt r = parsedTotal parsed"
    if g: "geminiResponse = Inr responseText"
      and p: "parseResponse JSON_parse responseText = Inr parsed"
  proof -
    obtain final s' calls where pass:
      "callbackPass options responseText
           (autoVerifyPass batch options (parsedItems parsed)) s = (final, s', calls)"
      by (cases "callbackPass options responseText
           (autoVerifyPass batch options (parsedItems parsed)) s")
    from callbackPass_frame(1) [OF pass] have "length final = length (parsedItems parsed)"
      by (simp add: autoVerifyPass_length)
    with extractReceiptItems_parsed [OF g p pass] show ?thesis by simp
  qed
  have b: "autoVerifyPass batch options its = its"
    if "batch (filter needsVerification its) = Inl e"
    using that by (rule autoVerifyPass_failed)
  have c: "map callIndex calls = filter (\<lambda>i. needsVerification (its ! i)) [0..<length its]
          \<and> (\<forall>c \<in> set calls. isl (callOutcome c) \<longrightarrow> final ! callIndex c = its ! callIndex c)"
    if cb: "optionsVerifyCallback options = Some cb"
      and pass: "callbackPass options responseText its s = (final, s', calls)"
  proof -
    note k = callbackPass_calls [OF cb pass]
    have "final ! callIndex x = its ! callIndex x"
      if "x \<in> set calls" "isl (callOutcome x)" for x
    proof -
      from that(2) obtain err where "callOutcome x = Inl err" by (cases "callOutcome x") simp_all
      with k(3) that(1) show ?thesis by auto
    qed
    with k(2) show ?thesis by blast
  qed
  have d: "returned (extractReceiptItems JSON_parse geminiResponse batch options s) = Inl e"
    if "geminiResponse = Inr responseText" "parseResponse JSON_parse responseText = Inl e"
    by (simp add: extractReceiptItems_failed(1) [OF that])
  have e: "returned (extractReceiptItems JSON_parse geminiResponse batch options s) = Inl e"
    if "geminiResponse = Inl e"
    by (simp add: extractReceiptItems_failed(2) [OF that])
  from a b c d e show ?thesis by blast
qed

theorem C7_verification_failures_not_fatal_witness:
  "parseResponse exThreeParse exThreeText = Inr \<lparr> parsedItems = exThreeItems, parsedTotal = 99 \<rparr>
   \<and> exBatchFails (filter needsVerification exThreeItems) = Inl ''search unavailable''
   \<and> autoVerifyPass exBatchFails exOptions exThreeItems = exThreeItems
   \<and> optionsVerifyCallback exOptions = Some exCallback
   \<and> map callOutcome (snd (snd (callbackPass exOptions exThreeText exThreeItems 0)))
       = [Inr None, Inr (Some \<lparr> verifiedName = ''Fuji Apples'' \<rparr>), Inl ''lookup failed'']
   \<and> map callIndex (snd (snd (callbackPass exOptions exThreeText exThreeItems 0))) = [0, 1, 2]
   \<and> fst (callbackPass exOptions exThreeText exThreeItems 0) ! 2 = exThreeItems ! 2
   \<and> returned (extractReceiptItems exThreeParse (Inr exThreeText) exBatchFails exOptions 0) =
       Inr \<lparr> items = map toPublic
             [exItem ''ORG MLK'' (25 / 2) 1 True, exItem ''Fuji Apples'' (9 / 2) 3 False,
              exItem ''ORG BRD'' 8 1 True, exItem ''Bananas'' 2 1 False],
           total_amt = 99 \<rparr>
   \<and> isl (returned (extractReceiptItems exThreeParse (Inr ''no JSON'') exBatchFails exOptions 0))"
proof -
  note p = exThree_parsed
  have bf: "exBatchFails (filter needsVerification exThreeItems) = Inl ''search unavailable''"
    by (simp add: exBatchFails_def)
  have o: "optionsVerifyCallback exOptions = Some exCallback"
    by (simp add: exOptions_def)
  note run = exThree_callbackPass
  have bad: "parseResponse exThreeParse ''no JSON'' =
      Inl (wrapParseError ''Unexpected token'' ''no JSON'')"
    by (simp add: parseResponse_def exThreeParse_def exThreeText_def extractJson_def trim_def
        codeBlockMatch_def fence_def isSpace_def)
  have oc: "map callOutcome (snd (snd (callbackPass exOptions exThreeText exThreeItems 0)))
       = [Inr None, Inr (Some \<lparr> verifiedName = ''Fuji Apples'' \<rparr>), Inl ''lookup failed'']"
    "map callIndex (snd (snd (callbackPass exOptions exThreeText exThreeItems 0))) = [0, 1, 2]"
    unfolding run by simp_all
  note thm1 = C7_verification_failures_not_fatal [where geminiResponse = "Inr exThreeText"
      and responseText = exThreeText and JSON_parse = exThreeParse
      and parsed = "\<lparr> parsedItems = exThreeItems, parsedTotal = 99 \<rparr>"
      and batch = exBatchFails and options = exOptions and s = 0 and its = exThreeItems
      and e = "''search unavailable''" and cb = exCallback]
  from thm1 bf have f: "autoVerifyPass exBatchFails exOptions exThreeItems = exThreeItems"
    by blast
  have kept: "fst (callbackPass exOptions exThreeText exThreeItems 0) ! 2 = exThreeItems ! 2"
    unfolding run by (simp add: exThreeItems_def)
  have r1: "returned (extractReceiptItems exThreeParse (Inr exThreeText) exBatchFails exOptions 0) =
     Inr \<lparr> items = map toPublic
             [exItem ''ORG MLK'' (25 / 2) 1 True, exItem ''Fuji Apples'' (9 / 2) 3 False,
              exItem ''ORG BRD'' 8 1 True, exItem ''Bananas'' 2 1 False],
           total_amt = 99 \<rparr>"
    by (simp add: extractReceiptItems_def exThree_parsed f exThree_callbackPass)
  from C7_verification_failures_not_fatal [where geminiResponse = "Inr ''no JSON''"
      and responseText = "''no JSON''" and JSON_parse = exThreeParse
      and batch = exBatchFails and options = exOptions and s = 0
      and e = "wrapParseError ''Unexpected token'' ''no JSON''"] bad
  have r2: "isl (returned (extractReceiptItems exThreeParse (Inr ''no JSON'') exBatchFails exOptions 0))"
    by simp
  from p bf f o oc kept r1 r2 show ?thesis by simp
qed


section \<open>Properties of the public projection\<close>

lemma toPublic_fields:
  "name (toPublic item) = name item" "price (toPublic item) = price item"
  "quantity (toPublic item) = quantity item" "hasTax (toPublic item) = hasTax item"
  "taxAmount (toPublic item) = taxAmount item" "deposit (toPublic item) = deposit item"
  "discount (toPublic item) = discount item"
  by (simp_all add: toPublic_def)

text \<open>Adding needsVerification to the public shape gives the internal item back.\<close>

lemma toPublic_extend:
  "ReceiptItem.extend (toPublic item) (InternalReceiptItem.fields (needsVerification item)) = item"
  by (simp add: toPublic_def ReceiptItem.defs InternalReceiptItem.defs)

lemma take_take_le: "take n (take m xs) = take n xs" if "n \<le> m"
  using that by (simp add: min_def)

lemma nth_from_take:
  assumes "take n ys = xs" and "a < length xs"
  shows "ys ! a = xs ! a"
proof -
  from assms have "a < n" by auto
  then have "ys ! a = take n ys ! a" by simp
  with assms(1) show ?thesis by simp
qed

text \<open>
  The elements of the result are new cells, two allocations apart, each holding the public
  shape of the item at the same position; the cells of the store before are kept.
\<close>

lemma projectElements_spec:
  assumes "\<forall>a \<in> set addrs. a < length h" and "map ((!) h) addrs = map ItemCell its"
  shows "\<exists>h' out. projectElements h addrs = Some (h', out)
           \<and> take (length h) h' = h
           \<and> map ((!) h') out = map PublicCell (map toPublic its)
           \<and> (\<forall>b \<in> set out. length h \<le> b \<and> b < length h')
           \<and> distinct out"
  using assms
proof (induction addrs arbitrary: h its)
  case Nil
  then show ?case by simp
next
  case (Cons a as)
  from Cons.prems(2) obtain item rest where its: "its = item # rest"
    and cell: "h ! a = ItemCell item" and tl: "map ((!) h) as = map ItemCell rest"
    by (cases its) auto
  let ?p = "PublicCell (toPublic item)"
  let ?h2 = "h @ [?p, ?p]"
  from Cons.prems(1) have a: "a < length h" and as: "\<forall>b \<in> set as. b < length h" by simp_all
  from as have as2: "\<forall>b \<in> set as. b < length ?h2" by auto
  from as tl have tl2: "map ((!) ?h2) as = map ItemCell rest"
    by (simp add: nth_append cong: map_cong)
  from Cons.IH [OF as2 tl2] obtain h3 out where
    rec: "projectElements ?h2 as = Some (h3, out)" and
    keep: "take (length ?h2) h3 = ?h2" and
    cells: "map ((!) h3) out = map PublicCell (map toPublic rest)" and
    fresh: "\<forall>b \<in> set out. length ?h2 \<le> b \<and> b < length h3" and
    dist: "distinct out" by blast
  have step: "projectElements h (a # as) = Some (h3, Suc (length h) # out)"
    using a cell rec by (simp add: alloc_def nth_append)
  from keep have "take (length h) (take (length ?h2) h3) = take (length h) ?h2" by simp
  then have keep': "take (length h) h3 = h" by (simp add: take_take_le)
  have "h3 ! Suc (length h) = ?h2 ! Suc (length h)"
    using keep by (rule nth_from_take) simp
  then have copy: "h3 ! Suc (length h) = ?p" by (simp add: nth_append)
  from keep have "length ?h2 \<le> length h3"
    by (metis length_take min.cobounded1)
  then have lt: "Suc (length h) < length h3" by simp
  from fresh have notin: "Suc (length h) \<notin> set out" by auto
  from fresh have fresh': "\<forall>b \<in> set out. length h \<le> b \<and> b < length h3" by auto
  from step keep' copy cells its lt notin fresh' dist show ?case by simp
qed

lemma publicProjection_spec:
  assumes "arr < length h" and "h ! arr = ArrayCell addrs"
    and "\<forall>a \<in> set addrs. a < length h" and "map ((!) h) addrs = map ItemCell its"
  shows "\<exists>h' fin out. publicProjection h arr = Some (h', fin)
           \<and> h' ! fin = ArrayCell out
           \<and> map ((!) h') out = map PublicCell (map toPublic its)
           \<and> length h \<le> fin \<and> fin < length h' \<and> fin \<notin> set out
           \<and> (\<forall>b \<in> set out. length h \<le> b \<and> b < length h')
           \<and> distinct out
           \<and> take (length h) h' = h"
proof -
  from projectElements_spec [OF assms(3,4)] obtain h1 out where
    rec: "projectElements h addrs = Some (h1, out)" and
    keep: "take (length h) h1 = h" and
    cells: "map ((!) h1) out = map PublicCell (map toPublic its)" and
    fresh: "\<forall>b \<in> set out. length h \<le> b \<and> b < length h1" and
    dist: "distinct out" by blast
  let ?h' = "h1 @ [ArrayCell out]"
  from keep have le: "length h \<le> length h1" by (metis length_take min.cobounded1)
  have run: "publicProjection h arr = Some (?h', length h1)"
    using assms(1,2) rec by (simp add: publicProjection_def alloc_def)
  from fresh cells have cells': "map ((!) ?h') out = map PublicCell (map toPublic its)"
    by (simp add: nth_append cong: map_cong)
  from fresh have notin: "length h1 \<notin> set out" by auto
  from fresh have fresh': "\<forall>b \<in> set out. length h \<le> b \<and> b < length ?h'" by auto
  from keep le have keep': "take (length h) ?h' = h" by simp
  from run cells' le notin fresh' dist keep' show ?thesis by simp
qed

text \<open>
  Claim C8. Step 4 on a store in which the array parsedItems holds the addresses of the
  internal items \<open>its\<close>: the result is a new array of new, distinct objects, the object at
  each position holding the fields of the internal item at that position except
  needsVerification (adding that field again gives the internal item back). No cell the
  store had before is changed by the step, and none is changed by a later write through
  the returned array or one of its elements, so the internal items stay as they are.
\<close>

theorem C8_public_items_independent:
  assumes "arr < length h" and "h ! arr = ArrayCell addrs"
    and "\<forall>a \<in> set addrs. a < length h" and "map ((!) h) addrs = map ItemCell its"
  shows "\<exists>h' fin out. publicProjection h arr = Some (h', fin)
           \<and> h' ! fin = ArrayCell out
           \<and> map ((!) h') out = map PublicCell (map toPublic its)
           \<and> (\<forall>item \<in> set its.
                 name (toPublic item) = name item \<and> price (toPublic item) = price item
               \<and> quantity (toPublic item) = quantity item \<and> hasTax (toPublic item) = hasTax item
               \<and> taxAmount (toPublic item) = taxAmount item
               \<and> deposit (toPublic item) = deposit item
               \<and> discount (toPublic item) = discount item
               \<and> ReceiptItem.extend (toPublic item)
                    (InternalReceiptItem.fields (needsVerification item)) = item)
           \<and> length h \<le> fin \<and> fin \<notin> set out \<and> distinct out
           \<and> (\<forall>b \<in> set out. length h \<le> b \<and> b \<notin> set addrs \<and> b \<noteq> arr)
           \<and> take (length h) h' = h
           \<and> map ((!) h') addrs = map ItemCell its
           \<and> (\<forall>b \<in> insert fin (set out). \<forall>c.
                 take (length h) (h'[b := c]) = h
               \<and> map ((!) (h'[b := c])) addrs = map ItemCell its)"
proof -
  from publicProjection_spec [OF assms] obtain h' fin out where
    run: "publicProjection h arr = Some (h', fin)" and
    arr': "h' ! fin = ArrayCell out" and
    cells: "map ((!) h') out = map PublicCell (map toPublic its)" and
    fin: "length h \<le> fin" "fin < length h'" "fin \<notin> set out" and
    fresh: "\<forall>b \<in> set out. length h \<le> b \<and> b < length h'" and
    dist: "distinct out" and
    keep: "take (length h) h' = h" by blast
  have fields: "\<forall>item \<in> set its.
                 name (toPublic item) = name item \<and> price (toPublic item) = price item
               \<and> quantity (toPublic item) = quantity item \<and> hasTax (toPublic item) = hasTax item
               \<and> taxAmount (toPublic item) = taxAmount item
               \<and> deposit (toPublic item) = deposit item
               \<and> discount (toPublic item) = discount item
               \<and> ReceiptItem.extend (toPublic item)
                    (InternalReceiptItem.fields (needsVerification item)) = item"
    by (simp add: toPublic_fields toPublic_extend)
  have apart: "\<forall>b \<in> set out. length h \<le> b \<and> b \<notin> set addrs \<and> b \<noteq> arr"
    using fresh assms(1,3) by fastforce
  have old: "h' ! a = h ! a" if "a < length h" for a
    using keep that by (rule nth_from_take)
  have internal: "map ((!) h') addrs = map ItemCell its"
    using assms(3,4) old by (simp cong: map_cong)
  have upd: "take (length h) (h'[b := c]) = h
               \<and> map ((!) (h'[b := c])) addrs = map ItemCell its"
    if b: "b \<in> insert fin (set out)" for b c
  proof -
    from b fin(1) fresh have ge: "length h \<le> b" by auto
    then have t: "take (length h) (h'[b := c]) = h" using keep by simp
    from ge assms(3) have "\<forall>a \<in> set addrs. b \<noteq> a" by auto
    then have "map ((!) (h'[b := c])) addrs = map ((!) h') addrs"
      by (simp cong: map_cong)
    with internal t show ?thesis by simp
  qed
  from run arr' cells fields fin(1,3) dist apart keep internal upd
  show ?thesis by blast
qed

theorem C8_public_items_independent_witness:
  "publicProjection exStore 2 =
     Some (exStore @
             [PublicCell (toPublic (exItem ''ORG MLK'' (25 / 2) 1 True)),
              PublicCell (toPublic (exItem ''ORG MLK'' (25 / 2) 1 True)),
              PublicCell (toPublic (exItem ''Bananas'' 2 1 False)),
              PublicCell (toPublic (exItem ''Bananas'' 2 1 False)),
              ArrayCell [4, 6]], 7)
   \<and> 2 < length exStore \<and> exStore ! 2 = ArrayCell [0, 1]
   \<and> map ((!) exStore) [0, 1]
       = map ItemCell [exItem ''ORG MLK'' (25 / 2) 1 True, exItem ''Bananas'' 2 1 False]"
proof -
  have wf: "2 < length exStore" "exStore ! 2 = ArrayCell [0, 1]"
    "\<forall>a \<in> set [0, 1]. a < length exStore"
    "map ((!) exStore) [0, 1]
       = map ItemCell [exItem ''ORG MLK'' (25 / 2) 1 True, exItem ''Bananas'' 2 1 False]"
    by (simp_all add: exStore_def)
  have run: "publicProjection exStore 2 =
     Some (exStore @
             [PublicCell (toPublic (exItem ''ORG MLK'' (25 / 2) 1 True)),
              PublicCell (toPublic (exItem ''ORG MLK'' (25 / 2) 1 True)),
              PublicCell (toPublic (exItem ''Bananas'' 2 1 False)),
              PublicCell (toPublic (exItem ''Bananas'' 2 1 False)),
              ArrayCell [4, 6]], 7)"
    by (simp add: publicProjection_def exStore_def alloc_def nth_append)
  from C8_public_items_independent [OF wf] run wf show ?thesis by simp
qed


end
